theory Spec2Isabelle
  imports Main "HOL-Library.Signed_Division"
begin

section \<open>Kate::TextLine: tab-aware column arithmetic (katetextline.cpp)\<close>

text \<open>
  A line's text \<open>m_text\<close> is a \<open>string\<close> (the parameter \<open>txt\<close>). Columns and tab
  widths are the source's \<open>int\<close>, a 32-bit two's-complement integer: a value is an
  integer from \<open>-2147483648\<close> to \<open>INT_MAX\<close>, and every addition and subtraction of the
  source is followed by \<open>int32\<close>, which reduces the exact result into that range
  (wrap-around, what the compiled code computes; the C++ standard leaves signed overflow
  undefined). The C++ remainder \<open>%\<close> truncates towards zero: it is \<open>smod\<close>, and needs no
  reduction. A tab width of 0 divides by zero in the source; every statement below is
  about \<open>tabWidth \<ge> 1\<close>. \<open>m_text.length()\<close> is an \<open>int\<close> as well: a line has at most
  \<open>INT_MAX\<close> characters.
\<close>

definition INT_MAX :: int where
  "INT_MAX = 2147483647"

definition int32 :: "int \<Rightarrow> int" where
  "int32 i = (i + 2147483648) mod 4294967296 - 2147483648"

definition tab :: char where
  "tab = CHR 0x09"

text \<open>
  The body shared by the loops of \<open>toVirtualColumn\<close> and \<open>virtualLength\<close>: scan the
  characters left to right, \<open>x\<close> the visual column reached so far;
  \<open>x += tabWidth - (x % tabWidth)\<close> at a tab, \<open>x++\<close> otherwise.
\<close>

fun expand :: "int \<Rightarrow> string \<Rightarrow> int \<Rightarrow> int" where
  "expand tabWidth [] x = x"
| "expand tabWidth (c # cs) x =
     expand tabWidth cs
       (if c = tab then int32 (x + int32 (tabWidth - (x smod tabWidth))) else int32 (x + 1))"

definition toVirtualColumn :: "string \<Rightarrow> int \<Rightarrow> int \<Rightarrow> int" where
  "toVirtualColumn txt column tabWidth =
     (if column < 0 then 0
      else let zmax = min column (int (length txt));
               x = expand tabWidth (take (nat zmax) txt) 0
           in int32 (int32 (x + column) - zmax))"

text \<open>
  The loop of \<open>fromVirtualColumn\<close> over the characters \<open>z < zmax\<close>, with its
  \<open>break\<close>; it returns the final \<open>(z, x)\<close>.
\<close>

fun fromVirtualColumn_loop :: "int \<Rightarrow> int \<Rightarrow> string \<Rightarrow> int \<Rightarrow> int \<Rightarrow> int \<times> int" where
  "fromVirtualColumn_loop tabWidth column [] z x = (z, x)"
| "fromVirtualColumn_loop tabWidth column (c # cs) z x =
     (let diff = (if c = tab then int32 (tabWidth - (x smod tabWidth)) else 1)
      in if int32 (x + diff) > column then (z, x)
         else fromVirtualColumn_loop tabWidth column cs (int32 (z + 1)) (int32 (x + diff)))"

definition fromVirtualColumn :: "string \<Rightarrow> int \<Rightarrow> int \<Rightarrow> int" where
  "fromVirtualColumn txt column tabWidth =
     (if column < 0 then 0
      else let zmax = min (int (length txt)) column;
               (z, x) = fromVirtualColumn_loop tabWidth column (take (nat zmax) txt) 0 0
           in int32 (z + max (int32 (column - x)) 0))"

definition virtualLength :: "string \<Rightarrow> int \<Rightarrow> int" where
  "virtualLength txt tabWidth = expand tabWidth txt 0"

text \<open>
  A virtual column lands on a character boundary when it is the visual width of a prefix
  of the line, or lies at or beyond the visual width of the whole line (where columns
  count one to one).
\<close>

definition onCharBoundary :: "string \<Rightarrow> int \<Rightarrow> int \<Rightarrow> bool" where
  "onCharBoundary txt tabWidth v =
     (v \<in> set (map (\<lambda>k. virtualLength (take k txt) tabWidth) [0..<Suc (length txt)])
      \<or> virtualLength txt tabWidth \<le> v)"

text \<open>
  The columns for which no \<open>int\<close> computation of the two conversions can overflow: a
  character advances the visual column by at most the tab width, so the line's length
  times the tab width, plus the column, bounds every intermediate value.
\<close>

definition withinInt :: "string \<Rightarrow> int \<Rightarrow> int \<Rightarrow> bool" where
  "withinInt txt tabWidth column = (int (length txt) * tabWidth + column \<le> INT_MAX)"

section \<open>Kate::TextLine: attribute runs (katetextline.cpp)\<close>

text \<open>
  Modelled from the spec: the declaration of \<open>Attribute\<close> (katetextline.h) is not among
  the sources; the spec gives a run as \<open>{offset: uint, length: uint, attributeValue: int}\<close>.
  The field \<open>length\<close> is written \<open>length'\<close>.
\<close>

record Attribute =
  offset :: nat
  length' :: nat
  attributeValue :: int

definition addAttribute :: "Attribute list \<Rightarrow> Attribute \<Rightarrow> Attribute list" where
  "addAttribute m_attributesList attribute =
     (if m_attributesList \<noteq> []
         \<and> attributeValue (last m_attributesList) = attributeValue attribute
         \<and> offset (last m_attributesList) + length' (last m_attributesList) = offset attribute
      then butlast m_attributesList @
           [(last m_attributesList)\<lparr>length' := length' (last m_attributesList) + length' attribute\<rparr>]
      else m_attributesList @ [attribute])"

text \<open>
  \<open>std::upper_bound\<close> with the comparator of \<open>TextLine::attribute\<close>, \<open>p < x.offset + x.length\<close>:
  the halving search of the standard library over the range of \<open>count\<close> elements starting at
  index \<open>first\<close>.
\<close>

function upper_bound :: "Attribute list \<Rightarrow> int \<Rightarrow> nat \<Rightarrow> nat \<Rightarrow> nat" where
  "upper_bound xs pos first count =
     (if 0 < count then
        (let step = count div 2; it = first + step
         in if \<not> (pos < int (offset (xs ! it) + length' (xs ! it)))
            then upper_bound xs pos (it + 1) (count - (step + 1))
            else upper_bound xs pos first step)
      else first)"
  by pat_completeness auto
termination
  by (relation "measure (\<lambda>(xs, pos, first, count). count)") auto

declare upper_bound.simps [simp del]

definition attribute :: "Attribute list \<Rightarrow> int \<Rightarrow> int" where
  "attribute m_attributesList pos =
     (let found = upper_bound m_attributesList pos 0 (length m_attributesList)
      in if found \<noteq> length m_attributesList
            \<and> int (offset (m_attributesList ! found)) \<le> pos
            \<and> pos < int (offset (m_attributesList ! found) + length' (m_attributesList ! found))
         then attributeValue (m_attributesList ! found)
         else 0)"

text \<open>The span \<open>[offset, offset + length)\<close> of a run contains \<open>pos\<close>.\<close>

definition spanContains :: "Attribute \<Rightarrow> int \<Rightarrow> bool" where
  "spanContains x pos = (int (offset x) \<le> pos \<and> pos < int (offset x + length' x))"

text \<open>
  Runs sorted ascending by offset and non-overlapping: every run ends at or before the
  offset of the next one.
\<close>

fun sortedRuns :: "Attribute list \<Rightarrow> bool" where
  "sortedRuns [] = True"
| "sortedRuns [x] = True"
| "sortedRuns (x # y # ys) = (offset x + length' x \<le> offset y \<and> sortedRuns (y # ys))"

text \<open>
  The same property read on the spans: two runs overlap when some position lies in both
  spans; a list is non-overlapping and sorted when its offsets ascend and no two of its
  runs overlap. For runs of positive length this is \<open>sortedRuns\<close>
  (lemma \<open>sortedRuns_spans\<close>).
\<close>

definition runsOverlap :: "Attribute \<Rightarrow> Attribute \<Rightarrow> bool" where
  "runsOverlap x y =
     (max (offset x) (offset y) < min (offset x + length' x) (offset y + length' y))"

definition sortedDisjointRuns :: "Attribute list \<Rightarrow> bool" where
  "sortedDisjointRuns xs =
     (sorted (map offset xs)
      \<and> (\<forall>j<length xs. \<forall>i<j. \<not> runsOverlap (xs ! i) (xs ! j)))"

text \<open>No two consecutive runs share the same \<open>attributeValue\<close>.\<close>

fun noAdjacentDuplicate :: "Attribute list \<Rightarrow> bool" where
  "noAdjacentDuplicate [] = True"
| "noAdjacentDuplicate [x] = True"
| "noAdjacentDuplicate (x # y # ys) =
     (attributeValue x \<noteq> attributeValue y \<and> noAdjacentDuplicate (y # ys))"

text \<open>
  No two consecutive runs that touch (the first ends exactly at the offset of the second)
  share the same \<open>attributeValue\<close>.
\<close>

fun noTouchingDuplicate :: "Attribute list \<Rightarrow> bool" where
  "noTouchingDuplicate [] = True"
| "noTouchingDuplicate [x] = True"
| "noTouchingDuplicate (x # y # ys) =
     (\<not> (attributeValue x = attributeValue y \<and> offset x + length' x = offset y)
      \<and> noTouchingDuplicate (y # ys))"

section \<open>Lines, documents and their modification flags\<close>

text \<open>
  Modelled from the spec: the declaration of \<open>TextLine\<close> (katetextline.h) is not among the
  sources. A line carries its text and the two flags of the spec's data model, \<open>modified\<close>
  and \<open>savedOnDisk\<close>; the attribute runs play no part in the undo records. A document is
  its sequence of lines.
\<close>

record TextLine =
  m_text :: string
  modified :: bool
  savedOnDisk :: bool

type_synonym Document = "TextLine list"

text \<open>
  Modelled from the spec: the flag accessors and setters of \<open>TextLine\<close> (katetextline.h)
  are not among the sources. The spec has undo and redo set a line's flags from the record's
  flag pair and, if neither flag of the pair is set, leave the line's flags unchanged; and it
  has a line in one of the states Clean, Modified and SavedOnDisk, never with both flags
  at once. So a setter called with \<open>true\<close> puts the line into its state (it sets its own
  flag and clears the other), and a setter called with \<open>false\<close> leaves the line as it is.
\<close>

definition markedAsModified :: "TextLine \<Rightarrow> bool" where
  "markedAsModified textLine = modified textLine"

definition markedAsSavedOnDisk :: "TextLine \<Rightarrow> bool" where
  "markedAsSavedOnDisk textLine = savedOnDisk textLine"

definition markAsModified :: "bool \<Rightarrow> TextLine \<Rightarrow> TextLine" where
  "markAsModified b textLine =
     (if b then textLine\<lparr>modified := True, savedOnDisk := False\<rparr> else textLine)"

definition markAsSavedOnDisk :: "bool \<Rightarrow> TextLine \<Rightarrow> TextLine" where
  "markAsSavedOnDisk b textLine =
     (if b then textLine\<lparr>savedOnDisk := True, modified := False\<rparr> else textLine)"

text \<open>
  Modelled from the spec: \<open>plainKateTextLine\<close> (katedocument.cpp) is not among the sources.
  It is the spec's "fetch the text line at index L", and yields nothing for an index outside
  the document.
\<close>

definition validLine :: "Document \<Rightarrow> int \<Rightarrow> bool" where
  "validLine document i = (0 \<le> i \<and> i < int (length document))"

definition plainKateTextLine :: "Document \<Rightarrow> int \<Rightarrow> TextLine option" where
  "plainKateTextLine document i =
     (if validLine document i then Some (document ! nat i) else None)"

text \<open>
  Modelled from the spec: the text mutations of the owning document (katedocument.cpp)
  are not among the sources. They follow the spec's table of record kinds: text inserted
  or removed at (line, col); a line split in two at (line, col), into a new line or onto
  the front of the existing next line; a line merged with the following line, which
  disappears or keeps its remainder; a whole line inserted or deleted. An edit that does
  not apply leaves the document as it is. The spec has the flags mutated only by the undo
  records, never by an edit: existing lines keep their flags and a new line starts with
  both flags false.
\<close>

definition editInsertText :: "Document \<Rightarrow> int \<Rightarrow> int \<Rightarrow> string \<Rightarrow> Document" where
  "editInsertText document line col s =
     (if validLine document line \<and> 0 \<le> col then
        (let textLine = document ! nat line
         in document[nat line :=
              textLine\<lparr>m_text := take (nat col) (m_text textLine) @ s @ drop (nat col) (m_text textLine)\<rparr>])
      else document)"

definition editRemoveText :: "Document \<Rightarrow> int \<Rightarrow> int \<Rightarrow> int \<Rightarrow> Document" where
  "editRemoveText document line col len =
     (if validLine document line \<and> 0 \<le> col \<and> 0 \<le> len then
        (let textLine = document ! nat line
         in document[nat line :=
              textLine\<lparr>m_text := take (nat col) (m_text textLine) @ drop (nat col + nat len) (m_text textLine)\<rparr>])
      else document)"

definition editWrapLine :: "Document \<Rightarrow> int \<Rightarrow> int \<Rightarrow> bool \<Rightarrow> Document" where
  "editWrapLine document line col newLine =
     (if validLine document line \<and> 0 \<le> col then
        (let textLine = document ! nat line;
             front = textLine\<lparr>m_text := take (nat col) (m_text textLine)\<rparr>;
             back = drop (nat col) (m_text textLine)
         in if newLine \<or> \<not> validLine document (line + 1) then
              take (nat line) document
                @ [front, \<lparr>m_text = back, modified = False, savedOnDisk = False\<rparr>]
                @ drop (nat line + 1) document
            else
              (let nextLine = document ! (nat line + 1)
               in document[nat line := front,
                           nat line + 1 := nextLine\<lparr>m_text := back @ m_text nextLine\<rparr>]))
      else document)"

definition editUnWrapLine :: "Document \<Rightarrow> int \<Rightarrow> bool \<Rightarrow> int \<Rightarrow> Document" where
  "editUnWrapLine document line removeLine len =
     (if validLine document line \<and> validLine document (line + 1) \<and> 0 \<le> len then
        (let textLine = document ! nat line;
             nextLine = document ! (nat line + 1)
         in if removeLine then
              take (nat line) document
                @ [textLine\<lparr>m_text := m_text textLine @ m_text nextLine\<rparr>]
                @ drop (nat line + 2) document
            else
              document[nat line := textLine\<lparr>m_text := m_text textLine @ take (nat len) (m_text nextLine)\<rparr>,
                       nat line + 1 := nextLine\<lparr>m_text := drop (nat len) (m_text nextLine)\<rparr>])
      else document)"

definition editInsertLine :: "Document \<Rightarrow> int \<Rightarrow> string \<Rightarrow> Document" where
  "editInsertLine document line s =
     (if 0 \<le> line \<and> line \<le> int (length document) then
        take (nat line) document
          @ [\<lparr>m_text = s, modified = False, savedOnDisk = False\<rparr>]
          @ drop (nat line) document
      else document)"

definition editRemoveLine :: "Document \<Rightarrow> int \<Rightarrow> Document" where
  "editRemoveLine document line =
     (if validLine document line then
        take (nat line) document @ drop (nat line + 1) document
      else document)"

section \<open>Undo records with modification flags (katemodifiedundo.cpp)\<close>

text \<open>
  Modelled from the spec: the declaration of the flags (kateundo.h) is not among the
  sources. The flag bitset of a record has its members drawn from the eight flags below.
\<close>

datatype ModificationFlag =
    UndoLine1Modified | UndoLine2Modified | UndoLine1Saved | UndoLine2Saved
  | RedoLine1Modified | RedoLine2Modified | RedoLine1Saved | RedoLine2Saved

text \<open>
  Modelled from the spec: the declarations of the record classes (kateundo.h) are not among
  the sources. The spec's undo record is a tagged variant with the common fields line
  index, column, text payload and flag bitset. The six classes share one record type, tagged
  by \<open>kind\<close>; \<open>m_string\<close> is the text payload, \<open>m_len\<close> the length argument of a
  WrapLine or UnWrapLine (the payload's length otherwise), \<open>m_newLine\<close> the \<open>newLine\<close>
  of a WrapLine and the \<open>removeLine\<close> of an UnWrapLine. A field a kind does not have is
  never read for that kind.
\<close>

datatype UndoKind = InsertText | RemoveText | WrapLine | UnWrapLine | InsertLine | RemoveLine

record KateUndo =
  kind :: UndoKind
  m_line :: int
  m_col :: int
  m_string :: string
  m_len :: int
  m_newLine :: bool
  m_lineModFlags :: "ModificationFlag set"

text \<open>
  Modelled from the spec: \<open>setFlag\<close>, \<open>unsetFlag\<close> and \<open>isFlagSet\<close> (kateundo.h) are
  not among the sources; they add, remove and test a member of the flag bitset.
\<close>

definition setFlag :: "ModificationFlag \<Rightarrow> KateUndo \<Rightarrow> KateUndo" where
  "setFlag f u = u\<lparr>m_lineModFlags := insert f (m_lineModFlags u)\<rparr>"

definition unsetFlag :: "ModificationFlag \<Rightarrow> KateUndo \<Rightarrow> KateUndo" where
  "unsetFlag f u = u\<lparr>m_lineModFlags := m_lineModFlags u - {f}\<rparr>"

definition isFlagSet :: "ModificationFlag \<Rightarrow> KateUndo \<Rightarrow> bool" where
  "isFlagSet f u = (f \<in> m_lineModFlags u)"

text \<open>
  Modelled from the spec: the base-class constructors (kateundo.h) are not among the
  sources. They store the positional data and the payload; no flag is set.
\<close>

definition KateEditInsertTextUndo :: "int \<Rightarrow> int \<Rightarrow> string \<Rightarrow> KateUndo" where
  "KateEditInsertTextUndo line col s =
     \<lparr>kind = InsertText, m_line = line, m_col = col, m_string = s, m_len = int (length s),
      m_newLine = False, m_lineModFlags = {}\<rparr>"

definition KateEditRemoveTextUndo :: "int \<Rightarrow> int \<Rightarrow> string \<Rightarrow> KateUndo" where
  "KateEditRemoveTextUndo line col s =
     \<lparr>kind = RemoveText, m_line = line, m_col = col, m_string = s, m_len = int (length s),
      m_newLine = False, m_lineModFlags = {}\<rparr>"

definition KateEditWrapLineUndo :: "int \<Rightarrow> int \<Rightarrow> int \<Rightarrow> bool \<Rightarrow> KateUndo" where
  "KateEditWrapLineUndo line col len newLine =
     \<lparr>kind = WrapLine, m_line = line, m_col = col, m_string = [], m_len = len,
      m_newLine = newLine, m_lineModFlags = {}\<rparr>"

definition KateEditUnWrapLineUndo :: "int \<Rightarrow> int \<Rightarrow> int \<Rightarrow> bool \<Rightarrow> KateUndo" where
  "KateEditUnWrapLineUndo line col len removeLine =
     \<lparr>kind = UnWrapLine, m_line = line, m_col = col, m_string = [], m_len = len,
      m_newLine = removeLine, m_lineModFlags = {}\<rparr>"

definition KateEditInsertLineUndo :: "int \<Rightarrow> string \<Rightarrow> KateUndo" where
  "KateEditInsertLineUndo line s =
     \<lparr>kind = InsertLine, m_line = line, m_col = 0, m_string = s, m_len = int (length s),
      m_newLine = False, m_lineModFlags = {}\<rparr>"

definition KateEditRemoveLineUndo :: "int \<Rightarrow> string \<Rightarrow> KateUndo" where
  "KateEditRemoveLineUndo line s =
     \<lparr>kind = RemoveLine, m_line = line, m_col = 0, m_string = s, m_len = int (length s),
      m_newLine = False, m_lineModFlags = {}\<rparr>"

subsection \<open>Construction: the flags are derived from the lines' current state\<close>

text \<open>\<open>Q_ASSERT(tl)\<close>: a constructor handed a line outside the document yields nothing.\<close>

definition KateModifiedInsertText :: "Document \<Rightarrow> int \<Rightarrow> int \<Rightarrow> string \<Rightarrow> KateUndo option" where
  "KateModifiedInsertText document line col s =
     (let u = setFlag RedoLine1Modified (KateEditInsertTextUndo line col s)
      in case plainKateTextLine document line of
           None \<Rightarrow> None
         | Some textLine \<Rightarrow>
             Some (if markedAsModified textLine then setFlag UndoLine1Modified u
                   else setFlag UndoLine1Saved u))"

definition KateModifiedRemoveText :: "Document \<Rightarrow> int \<Rightarrow> int \<Rightarrow> string \<Rightarrow> KateUndo option" where
  "KateModifiedRemoveText document line col s =
     (let u = setFlag RedoLine1Modified (KateEditRemoveTextUndo line col s)
      in case plainKateTextLine document line of
           None \<Rightarrow> None
         | Some textLine \<Rightarrow>
             Some (if markedAsModified textLine then setFlag UndoLine1Modified u
                   else setFlag UndoLine1Saved u))"

definition KateModifiedWrapLine :: "Document \<Rightarrow> int \<Rightarrow> int \<Rightarrow> int \<Rightarrow> bool \<Rightarrow> KateUndo option" where
  "KateModifiedWrapLine document line col len newLine =
     (case plainKateTextLine document line of
        None \<Rightarrow> None
      | Some textLine \<Rightarrow>
          (let u0 = KateEditWrapLineUndo line col len newLine;
               u1 = (if len > 0 \<or> markedAsModified textLine then setFlag RedoLine1Modified u0
                     else if markedAsSavedOnDisk textLine then setFlag RedoLine1Saved u0
                     else u0);
               u2 = (if col > 0 \<or> len = 0 \<or> markedAsModified textLine then setFlag RedoLine2Modified u1
                     else if markedAsSavedOnDisk textLine then setFlag RedoLine2Saved u1
                     else u1);
               u3 = (if markedAsModified textLine then setFlag UndoLine1Modified u2
                     else if (len > 0 \<and> col > 0) \<or> markedAsSavedOnDisk textLine
                          then setFlag UndoLine1Saved u2
                     else u2)
           in Some u3))"

definition KateModifiedUnWrapLine :: "Document \<Rightarrow> int \<Rightarrow> int \<Rightarrow> int \<Rightarrow> bool \<Rightarrow> KateUndo option" where
  "KateModifiedUnWrapLine document line col len removeLine =
     (case plainKateTextLine document line of
        None \<Rightarrow> None
      | Some textLine \<Rightarrow>
         (case plainKateTextLine document (line + 1) of
            None \<Rightarrow> None
          | Some nextLine \<Rightarrow>
             (let u0 = KateEditUnWrapLineUndo line col len removeLine;
                  len1 = int (length (m_text textLine));
                  len2 = int (length (m_text nextLine))
              in if len1 > 0 \<and> len2 > 0 then
                   (let u1 = setFlag RedoLine1Modified u0;
                        u2 = (if markedAsModified textLine then setFlag UndoLine1Modified u1
                              else setFlag UndoLine1Saved u1);
                        u3 = (if markedAsModified nextLine then setFlag UndoLine2Modified u2
                              else setFlag UndoLine2Saved u2)
                    in Some u3)
                 else if len1 = 0 then
                   (let u1 = (if markedAsModified nextLine then setFlag RedoLine1Modified u0
                              else if markedAsSavedOnDisk nextLine then setFlag RedoLine1Saved u0
                              else u0);
                        u2 = (if markedAsModified textLine then setFlag UndoLine1Modified u1
                              else setFlag UndoLine1Saved u1);
                        u3 = (if markedAsModified nextLine then setFlag UndoLine2Modified u2
                              else if markedAsSavedOnDisk nextLine then setFlag UndoLine2Saved u2
                              else u2)
                    in Some u3)
                 else
                   (let u1 = (if markedAsModified nextLine then setFlag RedoLine1Modified u0
                              else if markedAsSavedOnDisk nextLine then setFlag RedoLine1Saved u0
                              else u0);
                        u2 = (if markedAsModified textLine then setFlag UndoLine1Modified u1
                              else if markedAsSavedOnDisk textLine then setFlag UndoLine1Saved u1
                              else u1);
                        u3 = (if markedAsModified nextLine then setFlag UndoLine2Modified u2
                              else setFlag UndoLine2Saved u2)
                    in Some u3))))"

definition KateModifiedInsertLine :: "int \<Rightarrow> string \<Rightarrow> KateUndo" where
  "KateModifiedInsertLine line s = setFlag RedoLine1Modified (KateEditInsertLineUndo line s)"

definition KateModifiedRemoveLine :: "Document \<Rightarrow> int \<Rightarrow> string \<Rightarrow> KateUndo option" where
  "KateModifiedRemoveLine document line s =
     (case plainKateTextLine document line of
        None \<Rightarrow> None
      | Some textLine \<Rightarrow>
          Some (if markedAsModified textLine then setFlag UndoLine1Modified (KateEditRemoveLineUndo line s)
                else setFlag UndoLine1Saved (KateEditRemoveLineUndo line s)))"

subsection \<open>Undo and redo\<close>

text \<open>
  Modelled from the spec: kateundo.cpp is not among the sources. The base-class
  \<open>undo\<close> applies the inverse text mutation of the record's kind to the document and the
  base-class \<open>redo\<close> applies the mutation itself.
\<close>

definition KateEditInsertTextUndo_undo :: "KateUndo \<Rightarrow> Document \<Rightarrow> Document" where
  "KateEditInsertTextUndo_undo u document = editRemoveText document (m_line u) (m_col u) (m_len u)"

definition KateEditInsertTextUndo_redo :: "KateUndo \<Rightarrow> Document \<Rightarrow> Document" where
  "KateEditInsertTextUndo_redo u document = editInsertText document (m_line u) (m_col u) (m_string u)"

definition KateEditRemoveTextUndo_undo :: "KateUndo \<Rightarrow> Document \<Rightarrow> Document" where
  "KateEditRemoveTextUndo_undo u document = editInsertText document (m_line u) (m_col u) (m_string u)"

definition KateEditRemoveTextUndo_redo :: "KateUndo \<Rightarrow> Document \<Rightarrow> Document" where
  "KateEditRemoveTextUndo_redo u document = editRemoveText document (m_line u) (m_col u) (m_len u)"

definition KateEditWrapLineUndo_undo :: "KateUndo \<Rightarrow> Document \<Rightarrow> Document" where
  "KateEditWrapLineUndo_undo u document = editUnWrapLine document (m_line u) (m_newLine u) (m_len u)"

definition KateEditWrapLineUndo_redo :: "KateUndo \<Rightarrow> Document \<Rightarrow> Document" where
  "KateEditWrapLineUndo_redo u document = editWrapLine document (m_line u) (m_col u) (m_newLine u)"

definition KateEditUnWrapLineUndo_undo :: "KateUndo \<Rightarrow> Document \<Rightarrow> Document" where
  "KateEditUnWrapLineUndo_undo u document = editWrapLine document (m_line u) (m_col u) (m_newLine u)"

definition KateEditUnWrapLineUndo_redo :: "KateUndo \<Rightarrow> Document \<Rightarrow> Document" where
  "KateEditUnWrapLineUndo_redo u document = editUnWrapLine document (m_line u) (m_newLine u) (m_len u)"

definition KateEditInsertLineUndo_undo :: "KateUndo \<Rightarrow> Document \<Rightarrow> Document" where
  "KateEditInsertLineUndo_undo u document = editRemoveLine document (m_line u)"

definition KateEditInsertLineUndo_redo :: "KateUndo \<Rightarrow> Document \<Rightarrow> Document" where
  "KateEditInsertLineUndo_redo u document = editInsertLine document (m_line u) (m_string u)"

definition KateEditRemoveLineUndo_undo :: "KateUndo \<Rightarrow> Document \<Rightarrow> Document" where
  "KateEditRemoveLineUndo_undo u document = editInsertLine document (m_line u) (m_string u)"

definition KateEditRemoveLineUndo_redo :: "KateUndo \<Rightarrow> Document \<Rightarrow> Document" where
  "KateEditRemoveLineUndo_redo u document = editRemoveLine document (m_line u)"

text \<open>
  The four statements every \<open>undo\<close> and \<open>redo\<close> of katemodifiedundo.cpp repeat for a
  line: fetch it, \<open>Q_ASSERT\<close> that it exists, then \<open>markAsModified\<close> and
  \<open>markAsSavedOnDisk\<close> with the two flag tests, in this order.
\<close>

definition markLine :: "Document \<Rightarrow> int \<Rightarrow> bool \<Rightarrow> bool \<Rightarrow> Document option" where
  "markLine document line m s =
     (case plainKateTextLine document line of
        None \<Rightarrow> None
      | Some textLine \<Rightarrow>
          Some (document[nat line := markAsSavedOnDisk s (markAsModified m textLine)]))"

definition KateModifiedInsertText_undo :: "KateUndo \<Rightarrow> Document \<Rightarrow> Document option" where
  "KateModifiedInsertText_undo u document =
     markLine (KateEditInsertTextUndo_undo u document) (m_line u)
       (isFlagSet UndoLine1Modified u) (isFlagSet UndoLine1Saved u)"

definition KateModifiedRemoveText_undo :: "KateUndo \<Rightarrow> Document \<Rightarrow> Document option" where
  "KateModifiedRemoveText_undo u document =
     markLine (KateEditRemoveTextUndo_undo u document) (m_line u)
       (isFlagSet UndoLine1Modified u) (isFlagSet UndoLine1Saved u)"

definition KateModifiedWrapLine_undo :: "KateUndo \<Rightarrow> Document \<Rightarrow> Document option" where
  "KateModifiedWrapLine_undo u document =
     markLine (KateEditWrapLineUndo_undo u document) (m_line u)
       (isFlagSet UndoLine1Modified u) (isFlagSet UndoLine1Saved u)"

definition KateModifiedUnWrapLine_undo :: "KateUndo \<Rightarrow> Document \<Rightarrow> Document option" where
  "KateModifiedUnWrapLine_undo u document =
     (case markLine (KateEditUnWrapLineUndo_undo u document) (m_line u)
             (isFlagSet UndoLine1Modified u) (isFlagSet UndoLine1Saved u) of
        None \<Rightarrow> None
      | Some document1 \<Rightarrow>
          markLine document1 (m_line u + 1)
            (isFlagSet UndoLine2Modified u) (isFlagSet UndoLine2Saved u))"

definition KateModifiedInsertLine_undo :: "KateUndo \<Rightarrow> Document \<Rightarrow> Document option" where
  "KateModifiedInsertLine_undo u document = Some (KateEditInsertLineUndo_undo u document)"

definition KateModifiedRemoveLine_undo :: "KateUndo \<Rightarrow> Document \<Rightarrow> Document option" where
  "KateModifiedRemoveLine_undo u document =
     markLine (KateEditRemoveLineUndo_undo u document) (m_line u)
       (isFlagSet UndoLine1Modified u) (isFlagSet UndoLine1Saved u)"

definition KateModifiedRemoveText_redo :: "KateUndo \<Rightarrow> Document \<Rightarrow> Document option" where
  "KateModifiedRemoveText_redo u doc =
     markLine (KateEditRemoveTextUndo_redo u doc) (m_line u)
       (isFlagSet RedoLine1Modified u) (isFlagSet RedoLine1Saved u)"

definition KateModifiedInsertText_redo :: "KateUndo \<Rightarrow> Document \<Rightarrow> Document option" where
  "KateModifiedInsertText_redo u doc =
     markLine (KateEditInsertTextUndo_redo u doc) (m_line u)
       (isFlagSet RedoLine1Modified u) (isFlagSet RedoLine1Saved u)"

definition KateModifiedUnWrapLine_redo :: "KateUndo \<Rightarrow> Document \<Rightarrow> Document option" where
  "KateModifiedUnWrapLine_redo u doc =
     markLine (KateEditUnWrapLineUndo_redo u doc) (m_line u)
       (isFlagSet RedoLine1Modified u) (isFlagSet RedoLine1Saved u)"

definition KateModifiedWrapLine_redo :: "KateUndo \<Rightarrow> Document \<Rightarrow> Document option" where
  "KateModifiedWrapLine_redo u doc =
     (case markLine (KateEditWrapLineUndo_redo u doc) (m_line u)
             (isFlagSet RedoLine1Modified u) (isFlagSet RedoLine1Saved u) of
        None \<Rightarrow> None
      | Some doc1 \<Rightarrow>
          markLine doc1 (m_line u + 1)
            (isFlagSet RedoLine2Modified u) (isFlagSet RedoLine2Saved u))"

definition KateModifiedRemoveLine_redo :: "KateUndo \<Rightarrow> Document \<Rightarrow> Document option" where
  "KateModifiedRemoveLine_redo u doc = Some (KateEditRemoveLineUndo_redo u doc)"

definition KateModifiedInsertLine_redo :: "KateUndo \<Rightarrow> Document \<Rightarrow> Document option" where
  "KateModifiedInsertLine_redo u doc =
     markLine (KateEditInsertLineUndo_redo u doc) (m_line u)
       (isFlagSet RedoLine1Modified u) (isFlagSet RedoLine1Saved u)"

text \<open>The virtual calls \<open>undo\<close> and \<open>redo\<close>, dispatched on the record's class.\<close>

definition undo :: "KateUndo \<Rightarrow> Document \<Rightarrow> Document option" where
  "undo u document =
     (case kind u of
        InsertText \<Rightarrow> KateModifiedInsertText_undo u document
      | RemoveText \<Rightarrow> KateModifiedRemoveText_undo u document
      | WrapLine \<Rightarrow> KateModifiedWrapLine_undo u document
      | UnWrapLine \<Rightarrow> KateModifiedUnWrapLine_undo u document
      | InsertLine \<Rightarrow> KateModifiedInsertLine_undo u document
      | RemoveLine \<Rightarrow> KateModifiedRemoveLine_undo u document)"

definition redo :: "KateUndo \<Rightarrow> Document \<Rightarrow> Document option" where
  "redo u doc =
     (case kind u of
        InsertText \<Rightarrow> KateModifiedInsertText_redo u doc
      | RemoveText \<Rightarrow> KateModifiedRemoveText_redo u doc
      | WrapLine \<Rightarrow> KateModifiedWrapLine_redo u doc
      | UnWrapLine \<Rightarrow> KateModifiedUnWrapLine_redo u doc
      | InsertLine \<Rightarrow> KateModifiedInsertLine_redo u doc
      | RemoveLine \<Rightarrow> KateModifiedRemoveLine_redo u doc)"

text \<open>
  The text mutation alone: the base-class call that opens every \<open>undo\<close> and \<open>redo\<close>
  of katemodifiedundo.cpp, by the record's class.
\<close>

definition textUndo :: "KateUndo \<Rightarrow> Document \<Rightarrow> Document" where
  "textUndo u document =
     (case kind u of
        InsertText \<Rightarrow> KateEditInsertTextUndo_undo u document
      | RemoveText \<Rightarrow> KateEditRemoveTextUndo_undo u document
      | WrapLine \<Rightarrow> KateEditWrapLineUndo_undo u document
      | UnWrapLine \<Rightarrow> KateEditUnWrapLineUndo_undo u document
      | InsertLine \<Rightarrow> KateEditInsertLineUndo_undo u document
      | RemoveLine \<Rightarrow> KateEditRemoveLineUndo_undo u document)"

definition textRedo :: "KateUndo \<Rightarrow> Document \<Rightarrow> Document" where
  "textRedo u doc =
     (case kind u of
        InsertText \<Rightarrow> KateEditInsertTextUndo_redo u doc
      | RemoveText \<Rightarrow> KateEditRemoveTextUndo_redo u doc
      | WrapLine \<Rightarrow> KateEditWrapLineUndo_redo u doc
      | UnWrapLine \<Rightarrow> KateEditUnWrapLineUndo_redo u doc
      | InsertLine \<Rightarrow> KateEditInsertLineUndo_redo u doc
      | RemoveLine \<Rightarrow> KateEditRemoveLineUndo_redo u doc)"

subsection \<open>Save reconciliation\<close>

text \<open>
  The per-line marker \<open>QBitArray\<close> is a list of bits. \<open>resize\<close> pads with cleared bits
  (or truncates); \<open>testBit\<close> and \<open>setBit\<close> outside the array are assertion failures.
\<close>

definition resize :: "bool list \<Rightarrow> int \<Rightarrow> bool list" where
  "resize lines n =
     (if int (length lines) \<le> n then lines @ replicate (nat n - length lines) False
      else take (nat n) lines)"

definition testBit :: "bool list \<Rightarrow> int \<Rightarrow> bool option" where
  "testBit lines i = (if 0 \<le> i \<and> i < int (length lines) then Some (lines ! nat i) else None)"

definition setBit :: "bool list \<Rightarrow> int \<Rightarrow> bool list option" where
  "setBit lines i =
     (if 0 \<le> i \<and> i < int (length lines) then Some (lines[nat i := True]) else None)"

text \<open>
  The statement every update function is built from,
  \<open>if (cond && !lines.testBit(i)) { lines.setBit(i); unsetFlag(M); setFlag(S); }\<close>,
  where \<open>cond\<close> is \<open>isFlagSet(M)\<close> in the two-line records and absent (true) in the
  one-line records. \<open>&&\<close> short-circuits: the bit is tested only when \<open>cond\<close> holds.
\<close>

definition markSavedOnce ::
  "bool \<Rightarrow> int \<Rightarrow> ModificationFlag \<Rightarrow> ModificationFlag \<Rightarrow> KateUndo \<Rightarrow> bool list
     \<Rightarrow> (KateUndo \<times> bool list) option" where
  "markSavedOnce cond i M S u lines =
     (if cond then
        (case testBit lines i of
           None \<Rightarrow> None
         | Some b \<Rightarrow>
             if \<not> b then
               (case setBit lines i of
                  None \<Rightarrow> None
                | Some lines' \<Rightarrow> Some (setFlag S (unsetFlag M u), lines'))
             else Some (u, lines))
      else Some (u, lines))"

definition KateModifiedInsertText_updateRedoSavedOnDiskFlag ::
  "KateUndo \<Rightarrow> bool list \<Rightarrow> (KateUndo \<times> bool list) option" where
  "KateModifiedInsertText_updateRedoSavedOnDiskFlag u lines =
     (let lines1 = (if m_line u \<ge> int (length lines) then resize lines (m_line u + 1) else lines)
      in markSavedOnce True (m_line u) RedoLine1Modified RedoLine1Saved u lines1)"

definition KateModifiedInsertText_updateUndoSavedOnDiskFlag ::
  "KateUndo \<Rightarrow> bool list \<Rightarrow> (KateUndo \<times> bool list) option" where
  "KateModifiedInsertText_updateUndoSavedOnDiskFlag u lines =
     (let lines1 = (if m_line u \<ge> int (length lines) then resize lines (m_line u + 1) else lines)
      in markSavedOnce True (m_line u) UndoLine1Modified UndoLine1Saved u lines1)"

definition KateModifiedRemoveText_updateRedoSavedOnDiskFlag ::
  "KateUndo \<Rightarrow> bool list \<Rightarrow> (KateUndo \<times> bool list) option" where
  "KateModifiedRemoveText_updateRedoSavedOnDiskFlag u lines =
     (let lines1 = (if m_line u \<ge> int (length lines) then resize lines (m_line u + 1) else lines)
      in markSavedOnce True (m_line u) RedoLine1Modified RedoLine1Saved u lines1)"

definition KateModifiedRemoveText_updateUndoSavedOnDiskFlag ::
  "KateUndo \<Rightarrow> bool list \<Rightarrow> (KateUndo \<times> bool list) option" where
  "KateModifiedRemoveText_updateUndoSavedOnDiskFlag u lines =
     (let lines1 = (if m_line u \<ge> int (length lines) then resize lines (m_line u + 1) else lines)
      in markSavedOnce True (m_line u) UndoLine1Modified UndoLine1Saved u lines1)"

definition KateModifiedWrapLine_updateRedoSavedOnDiskFlag ::
  "KateUndo \<Rightarrow> bool list \<Rightarrow> (KateUndo \<times> bool list) option" where
  "KateModifiedWrapLine_updateRedoSavedOnDiskFlag u lines =
     (let lines1 = (if m_line u + 1 \<ge> int (length lines) then resize lines (m_line u + 2) else lines)
      in case markSavedOnce (isFlagSet RedoLine1Modified u) (m_line u)
                RedoLine1Modified RedoLine1Saved u lines1 of
           None \<Rightarrow> None
         | Some (u1, lines2) \<Rightarrow>
             markSavedOnce (isFlagSet RedoLine2Modified u1) (m_line u1 + 1)
               RedoLine2Modified RedoLine2Saved u1 lines2)"

definition KateModifiedWrapLine_updateUndoSavedOnDiskFlag ::
  "KateUndo \<Rightarrow> bool list \<Rightarrow> (KateUndo \<times> bool list) option" where
  "KateModifiedWrapLine_updateUndoSavedOnDiskFlag u lines =
     (let lines1 = (if m_line u \<ge> int (length lines) then resize lines (m_line u + 1) else lines)
      in markSavedOnce (isFlagSet UndoLine1Modified u) (m_line u)
           UndoLine1Modified UndoLine1Saved u lines1)"

definition KateModifiedUnWrapLine_updateRedoSavedOnDiskFlag ::
  "KateUndo \<Rightarrow> bool list \<Rightarrow> (KateUndo \<times> bool list) option" where
  "KateModifiedUnWrapLine_updateRedoSavedOnDiskFlag u lines =
     (let lines1 = (if m_line u \<ge> int (length lines) then resize lines (m_line u + 1) else lines)
      in markSavedOnce (isFlagSet RedoLine1Modified u) (m_line u)
           RedoLine1Modified RedoLine1Saved u lines1)"

definition KateModifiedUnWrapLine_updateUndoSavedOnDiskFlag ::
  "KateUndo \<Rightarrow> bool list \<Rightarrow> (KateUndo \<times> bool list) option" where
  "KateModifiedUnWrapLine_updateUndoSavedOnDiskFlag u lines =
     (let lines1 = (if m_line u + 1 \<ge> int (length lines) then resize lines (m_line u + 2) else lines)
      in case markSavedOnce (isFlagSet UndoLine1Modified u) (m_line u)
                UndoLine1Modified UndoLine1Saved u lines1 of
           None \<Rightarrow> None
         | Some (u1, lines2) \<Rightarrow>
             markSavedOnce (isFlagSet UndoLine2Modified u1) (m_line u1 + 1)
               UndoLine2Modified UndoLine2Saved u1 lines2)"

definition KateModifiedInsertLine_updateRedoSavedOnDiskFlag ::
  "KateUndo \<Rightarrow> bool list \<Rightarrow> (KateUndo \<times> bool list) option" where
  "KateModifiedInsertLine_updateRedoSavedOnDiskFlag u lines =
     (let lines1 = (if m_line u \<ge> int (length lines) then resize lines (m_line u + 1) else lines)
      in markSavedOnce True (m_line u) RedoLine1Modified RedoLine1Saved u lines1)"

definition KateModifiedRemoveLine_updateUndoSavedOnDiskFlag ::
  "KateUndo \<Rightarrow> bool list \<Rightarrow> (KateUndo \<times> bool list) option" where
  "KateModifiedRemoveLine_updateUndoSavedOnDiskFlag u lines =
     (let lines1 = (if m_line u \<ge> int (length lines) then resize lines (m_line u + 1) else lines)
      in markSavedOnce True (m_line u) UndoLine1Modified UndoLine1Saved u lines1)"

text \<open>
  The virtual calls, dispatched on the record's class. katemodifiedundo.cpp overrides
  neither \<open>updateRedoSavedOnDiskFlag\<close> for a RemoveLine nor \<open>updateUndoSavedOnDiskFlag\<close>
  for an InsertLine.
  Modelled from the spec: the base-class versions (kateundo.h) are not among the sources;
  the spec gives a RemoveLine no redo flag and an InsertLine no undo flag, so the
  base-class call changes nothing.
\<close>

definition updateRedoSavedOnDiskFlag ::
  "KateUndo \<Rightarrow> bool list \<Rightarrow> (KateUndo \<times> bool list) option" where
  "updateRedoSavedOnDiskFlag u lines =
     (case kind u of
        InsertText \<Rightarrow> KateModifiedInsertText_updateRedoSavedOnDiskFlag u lines
      | RemoveText \<Rightarrow> KateModifiedRemoveText_updateRedoSavedOnDiskFlag u lines
      | WrapLine \<Rightarrow> KateModifiedWrapLine_updateRedoSavedOnDiskFlag u lines
      | UnWrapLine \<Rightarrow> KateModifiedUnWrapLine_updateRedoSavedOnDiskFlag u lines
      | InsertLine \<Rightarrow> KateModifiedInsertLine_updateRedoSavedOnDiskFlag u lines
      | RemoveLine \<Rightarrow> Some (u, lines))"

definition updateUndoSavedOnDiskFlag ::
  "KateUndo \<Rightarrow> bool list \<Rightarrow> (KateUndo \<times> bool list) option" where
  "updateUndoSavedOnDiskFlag u lines =
     (case kind u of
        InsertText \<Rightarrow> KateModifiedInsertText_updateUndoSavedOnDiskFlag u lines
      | RemoveText \<Rightarrow> KateModifiedRemoveText_updateUndoSavedOnDiskFlag u lines
      | WrapLine \<Rightarrow> KateModifiedWrapLine_updateUndoSavedOnDiskFlag u lines
      | UnWrapLine \<Rightarrow> KateModifiedUnWrapLine_updateUndoSavedOnDiskFlag u lines
      | InsertLine \<Rightarrow> Some (u, lines)
      | RemoveLine \<Rightarrow> KateModifiedRemoveLine_updateUndoSavedOnDiskFlag u lines)"

text \<open>
  Modelled from the spec: the undo manager that drives the reconciliation
  (kateundomanager.cpp) is not among the sources. One pass invokes
  \<open>updateRedoSavedOnDiskFlag\<close> on each record in turn, threading one fresh marker bitmap
  of \<open>n\<close> cleared bits through the calls, and then \<open>updateUndoSavedOnDiskFlag\<close> on each
  record with another fresh bitmap.
\<close>

fun updateAll ::
  "(KateUndo \<Rightarrow> bool list \<Rightarrow> (KateUndo \<times> bool list) option) \<Rightarrow> KateUndo list \<Rightarrow> bool list
     \<Rightarrow> (KateUndo list \<times> bool list) option" where
  "updateAll f [] lines = Some ([], lines)"
| "updateAll f (u # us) lines =
     (case f u lines of
        None \<Rightarrow> None
      | Some (u', lines') \<Rightarrow>
          (case updateAll f us lines' of
             None \<Rightarrow> None
           | Some (us', lines'') \<Rightarrow> Some (u' # us', lines'')))"

definition reconciliationPass :: "nat \<Rightarrow> KateUndo list \<Rightarrow> KateUndo list option" where
  "reconciliationPass n us =
     (case updateAll updateRedoSavedOnDiskFlag us (replicate n False) of
        None \<Rightarrow> None
      | Some (us1, lines1) \<Rightarrow>
          (case updateAll updateUndoSavedOnDiskFlag us1 (replicate n False) of
             None \<Rightarrow> None
           | Some (us2, lines2) \<Rightarrow> Some us2))"

subsection \<open>The flag invariant\<close>

text \<open>At most one of the Modified and Saved flags of a (line slot, direction) pair is set.\<close>

definition pairExclusive :: "ModificationFlag set \<Rightarrow> bool" where
  "pairExclusive F =
     (\<not> (RedoLine1Modified \<in> F \<and> RedoLine1Saved \<in> F)
      \<and> \<not> (RedoLine2Modified \<in> F \<and> RedoLine2Saved \<in> F)
      \<and> \<not> (UndoLine1Modified \<in> F \<and> UndoLine1Saved \<in> F)
      \<and> \<not> (UndoLine2Modified \<in> F \<and> UndoLine2Saved \<in> F))"

text \<open>
  The pairs that the one-line records rewrite without testing the Modified flag are never
  empty: a text edit carries a redo and an undo flag, an inserted line a redo flag, a
  removed line an undo flag.
\<close>

definition pairsPresent :: "KateUndo \<Rightarrow> bool" where
  "pairsPresent u =
     (let F = m_lineModFlags u;
          redo1 = (RedoLine1Modified \<in> F \<or> RedoLine1Saved \<in> F);
          undo1 = (UndoLine1Modified \<in> F \<or> UndoLine1Saved \<in> F)
      in case kind u of
           InsertText \<Rightarrow> redo1 \<and> undo1
         | RemoveText \<Rightarrow> redo1 \<and> undo1
         | InsertLine \<Rightarrow> redo1
         | RemoveLine \<Rightarrow> undo1
         | WrapLine \<Rightarrow> True
         | UnWrapLine \<Rightarrow> True)"

definition flagInvariant :: "KateUndo \<Rightarrow> bool" where
  "flagInvariant u = (pairExclusive (m_lineModFlags u) \<and> pairsPresent u)"

text \<open>
  A pair of flags is either left as it is, or its Modified flag, set before, is replaced
  by its Saved flag.
\<close>

definition pairKeptOrSaved ::
  "ModificationFlag \<Rightarrow> ModificationFlag \<Rightarrow> ModificationFlag set \<Rightarrow> ModificationFlag set \<Rightarrow> bool" where
  "pairKeptOrSaved M S F F' =
     (((M \<in> F') = (M \<in> F) \<and> (S \<in> F') = (S \<in> F)) \<or> (M \<in> F \<and> M \<notin> F' \<and> S \<in> F'))"

definition onlyModifiedToSaved :: "KateUndo \<Rightarrow> KateUndo \<Rightarrow> bool" where
  "onlyModifiedToSaved u u' =
     (u'\<lparr>m_lineModFlags := m_lineModFlags u\<rparr> = u
      \<and> pairKeptOrSaved RedoLine1Modified RedoLine1Saved (m_lineModFlags u) (m_lineModFlags u')
      \<and> pairKeptOrSaved RedoLine2Modified RedoLine2Saved (m_lineModFlags u) (m_lineModFlags u')
      \<and> pairKeptOrSaved UndoLine1Modified UndoLine1Saved (m_lineModFlags u) (m_lineModFlags u')
      \<and> pairKeptOrSaved UndoLine2Modified UndoLine2Saved (m_lineModFlags u) (m_lineModFlags u'))"

text \<open>The record kinds that touch one line only.\<close>

definition oneLineKind :: "UndoKind \<Rightarrow> bool" where
  "oneLineKind k = (k = InsertText \<or> k = RemoveText \<or> k = InsertLine \<or> k = RemoveLine)"

text \<open>
  The lines a record touches: its line, and for the two-line kinds (WrapLine, UnWrapLine)
  also the line after it.
\<close>

definition touchedLines :: "KateUndo \<Rightarrow> int set" where
  "touchedLines u =
     (if oneLineKind (kind u) then {m_line u} else {m_line u, m_line u + 1})"

text \<open>
  In a sequence of records, no record that comes after a two-line record touches one of
  that record's lines.
\<close>

fun wrapsIsolated :: "KateUndo list \<Rightarrow> bool" where
  "wrapsIsolated [] = True"
| "wrapsIsolated (u # us) =
     ((\<not> oneLineKind (kind u) \<longrightarrow> (\<forall>v\<in>set us. touchedLines u \<inter> touchedLines v = {}))
      \<and> wrapsIsolated us)"

text \<open>Two records of the same kind and line that agree on the flags in \<open>P\<close>.\<close>

definition sameFlagsOn :: "ModificationFlag set \<Rightarrow> KateUndo \<Rightarrow> KateUndo \<Rightarrow> bool" where
  "sameFlagsOn P u w =
     (kind w = kind u \<and> m_line w = m_line u
      \<and> (\<forall>x\<in>P. (x \<in> m_lineModFlags w) = (x \<in> m_lineModFlags u)))"

section \<open>Column arithmetic: proofs\<close>

lemma int32_id: "- 2147483648 \<le> i \<Longrightarrow> i \<le> INT_MAX \<Longrightarrow> int32 i = i"
  by (simp add: int32_def INT_MAX_def)

lemma smod_nonneg: "0 \<le> x \<Longrightarrow> 1 \<le> w \<Longrightarrow> (x::int) smod w = x mod w"
  by (simp add: signed_modulo_int_def sgn_if)

lemma tab_step:
  assumes "0 \<le> x" and "1 \<le> w"
  shows "1 \<le> w - ((x::int) smod w)" and "w - (x smod w) \<le> w"
proof -
  from assms have "x mod w < w" and "0 \<le> x mod w" by simp_all
  with assms smod_nonneg [of x w]
  show "1 \<le> w - (x smod w)" and "w - (x smod w) \<le> w" by linarith+
qed

text \<open>One character, when \<open>x + w\<close> fits: the reductions are the identity.\<close>

lemma step_fits:
  assumes x: "0 \<le> x" and w: "1 \<le> w" and b: "x + w \<le> INT_MAX"
  shows "int32 (w - (x smod w)) = w - (x smod w)"
    and "int32 (x + (w - (x smod w))) = x + (w - (x smod w))"
    and "int32 (x + 1) = x + 1"
proof -
  note t = tab_step [OF x w]
  from t x w b show "int32 (w - (x smod w)) = w - (x smod w)"
    by (intro int32_id) linarith+
  from t x w b show "int32 (x + (w - (x smod w))) = x + (w - (x smod w))"
    by (intro int32_id) linarith+
  from x w b show "int32 (x + 1) = x + 1"
    by (intro int32_id) linarith+
qed

lemma expand_step:
  assumes "0 \<le> x" and "1 \<le> w" and "x + w \<le> INT_MAX"
  shows "expand w (c # cs) x = expand w cs (x + (if c = tab then w - (x smod w) else 1))"
  using step_fits [OF assms] by simp

lemma loop_step:
  assumes "0 \<le> x" and "1 \<le> w" and "x + w \<le> INT_MAX"
  shows "fromVirtualColumn_loop w v (c # cs) z x =
     (if x + (if c = tab then w - (x smod w) else 1) > v then (z, x)
      else fromVirtualColumn_loop w v cs (int32 (z + 1))
             (x + (if c = tab then w - (x smod w) else 1)))"
  using step_fits [OF assms] by (simp add: Let_def)

lemma bound_Cons:
  assumes x: "0 \<le> x" and w: "1 \<le> w" and b: "x + int (length (c # cs)) * w \<le> INT_MAX"
    and d: "1 \<le> d" "d \<le> w"
  shows "x + w \<le> INT_MAX" and "0 \<le> x + d" and "(x + d) + int (length cs) * w \<le> INT_MAX"
proof -
  from w have p: "0 \<le> int (length cs) * w" by simp
  from b have b': "x + w + int (length cs) * w \<le> INT_MAX" by (simp add: algebra_simps)
  from b' p show "x + w \<le> INT_MAX" by linarith
  from x d show "0 \<le> x + d" by linarith
  from b' d show "(x + d) + int (length cs) * w \<le> INT_MAX" by linarith
qed

lemma expand_bounds:
  "0 \<le> x \<Longrightarrow> 1 \<le> w \<Longrightarrow> x + int (length cs) * w \<le> INT_MAX \<Longrightarrow>
   x + int (length cs) \<le> expand w cs x \<and> expand w cs x \<le> x + int (length cs) * w"
proof (induction cs arbitrary: x)
  case Nil
  then show ?case by simp
next
  case (Cons c cs)
  let ?d = "if c = tab then w - (x smod w) else 1"
  from Cons.prems tab_step [of x w] have d: "1 \<le> ?d" "?d \<le> w" by simp_all
  note b = bound_Cons [OF Cons.prems d]
  from expand_step [OF Cons.prems(1,2) b(1)]
  have ex: "expand w (c # cs) x = expand w cs (x + ?d)" .
  from Cons.IH [OF b(2) Cons.prems(2) b(3)]
  have ih: "x + ?d + int (length cs) \<le> expand w cs (x + ?d)"
    "expand w cs (x + ?d) \<le> x + ?d + int (length cs) * w" by simp_all
  have "x + int (length (c # cs)) \<le> expand w (c # cs) x"
    using ih(1) d(1) ex by simp
  moreover have "expand w (c # cs) x \<le> x + int (length (c # cs)) * w"
    using ih(2) d(2) ex by (simp add: algebra_simps)
  ultimately show ?case ..
qed

lemma expand_append: "expand w (as @ bs) x = expand w bs (expand w as x)"
  by (induction as arbitrary: x) simp_all

lemma loop_skip:
  "0 \<le> x \<Longrightarrow> 1 \<le> w \<Longrightarrow> x + int (length as) * w \<le> INT_MAX \<Longrightarrow>
   0 \<le> z \<Longrightarrow> z + int (length as) \<le> INT_MAX \<Longrightarrow> expand w as x \<le> v \<Longrightarrow>
   fromVirtualColumn_loop w v (as @ bs) z x =
   fromVirtualColumn_loop w v bs (z + int (length as)) (expand w as x)"
proof (induction as arbitrary: x z)
  case Nil
  then show ?case by simp
next
  case (Cons c cs)
  let ?d = "if c = tab then w - (x smod w) else 1"
  from Cons.prems tab_step [of x w] have d: "1 \<le> ?d" "?d \<le> w" by simp_all
  note b = bound_Cons [OF Cons.prems(1,2,3) d]
  from expand_step [OF Cons.prems(1,2) b(1)]
  have ex: "expand w (c # cs) x = expand w cs (x + ?d)" .
  from expand_bounds [OF b(2) Cons.prems(2) b(3)] have "x + ?d \<le> expand w cs (x + ?d)"
    by linarith
  with Cons.prems(6) ex have le: "x + ?d \<le> v" by linarith
  from Cons.prems(6) ex have le': "expand w cs (x + ?d) \<le> v" by simp
  from Cons.prems(4,5) have z: "int32 (z + 1) = z + 1" "0 \<le> z + 1"
    "z + 1 + int (length cs) \<le> INT_MAX"
    by (simp_all add: int32_id)
  have "fromVirtualColumn_loop w v ((c # cs) @ bs) z x =
        fromVirtualColumn_loop w v (cs @ bs) (z + 1) (x + ?d)"
    using le z(1) loop_step [OF Cons.prems(1,2) b(1), of v c "cs @ bs" z] by simp
  also have "\<dots> = fromVirtualColumn_loop w v bs (z + 1 + int (length cs)) (expand w cs (x + ?d))"
    by (rule Cons.IH [OF b(2) Cons.prems(2) b(3) z(2,3) le'])
  finally show ?case using ex by (simp add: add.assoc)
qed

lemma loop_stop:
  assumes v: "0 \<le> v" and w: "1 \<le> w" and b: "bs = [] \<or> v + w \<le> INT_MAX"
  shows "fromVirtualColumn_loop w v bs z v = (z, v)"
proof (cases bs)
  case Nil
  then show ?thesis by simp
next
  case (Cons c cs)
  with b have b': "v + w \<le> INT_MAX" by simp
  from tab_step [OF v w] have "1 \<le> (if c = tab then w - (v smod w) else 1)" by simp
  then show ?thesis using Cons loop_step [OF v w b', of v c cs z] by simp
qed

lemma length_bound:
  assumes w: "1 \<le> w" and b: "int n * w + c \<le> INT_MAX" and c: "0 \<le> c" and k: "k \<le> n"
  shows "int k * w \<le> INT_MAX" and "int k \<le> INT_MAX" and "int k * w + c \<le> INT_MAX"
    and "int k \<le> int k * w"
proof -
  from k w have 1: "int k * w \<le> int n * w" by (simp add: mult_right_mono)
  from w have 2: "int k * 1 \<le> int k * w" by (intro mult_left_mono) simp_all
  from 1 b c show "int k * w \<le> INT_MAX" by linarith
  from 1 2 b c show "int k \<le> INT_MAX" by linarith
  from 1 b show "int k * w + c \<le> INT_MAX" by linarith
  from 2 show "int k \<le> int k * w" by simp
qed

lemma to_at_prefix:
  assumes w: "1 \<le> w" and k: "k \<le> length t" and b: "withinInt t w (int k)"
  shows "toVirtualColumn t (int k) w = virtualLength (take k t) w"
proof -
  define X where "X = expand w (take k t) 0"
  from b have b': "int (length t) * w + int k \<le> INT_MAX" by (simp add: withinInt_def)
  note lb = length_bound [OF w b' _ k]
  from k have len: "length (take k t) = k" by simp
  from expand_bounds [of 0 w "take k t"] w lb(1) len
  have X: "int k \<le> X" "X \<le> int k * w" by (simp_all add: X_def)
  from X lb(3) have "int32 (X + int k) = X + int k"
    by (intro int32_id) linarith+
  moreover from X lb(1) have "int32 X = X" by (intro int32_id) linarith+
  ultimately show ?thesis
    using k by (simp add: toVirtualColumn_def virtualLength_def min_def X_def [symmetric] Let_def)
qed

lemma to_past_end:
  assumes w: "1 \<le> w" and c: "int (length t) \<le> c" and b: "withinInt t w c"
  shows "toVirtualColumn t c w = virtualLength t w + c - int (length t)"
proof -
  define X where "X = expand w t 0"
  from b have b': "int (length t) * w + c \<le> INT_MAX" by (simp add: withinInt_def)
  from c have c0: "0 \<le> c" by linarith
  note lb = length_bound [OF w b' c0 order_refl]
  from expand_bounds [of 0 w t] w lb(1)
  have X: "int (length t) \<le> X" "X \<le> int (length t) * w" by (simp_all add: X_def)
  from X b' c have 1: "int32 (X + c) = X + c" by (intro int32_id) linarith+
  from X b' c have 2: "int32 (X + c - int (length t)) = X + c - int (length t)"
    by (intro int32_id) linarith+
  from X lb(1) have 3: "int32 X = X" by (intro int32_id) linarith+
  from c c0 1 2 3 show ?thesis
    by (simp add: toVirtualColumn_def virtualLength_def min_def X_def [symmetric] Let_def)
qed

lemma from_to_inverse:
  assumes c: "0 \<le> c" and w: "1 \<le> w" and b: "withinInt t w c"
  shows "fromVirtualColumn t (toVirtualColumn t c w) w = c"
proof (cases "c \<le> int (length t)")
  case True
  define n where "n = nat c"
  define v where "v = expand w (take n t) 0"
  from True c have n: "n \<le> length t" "int n = c" by (simp_all add: n_def)
  from b have b': "int (length t) * w + c \<le> INT_MAX" by (simp add: withinInt_def)
  note lb = length_bound [OF w b' c n(1)]
  from n have len: "length (take n t) = n" by simp
  from b n have "withinInt t w (int n)" by simp
  from to_at_prefix [OF w n(1) this] n have tv: "toVirtualColumn t c w = v"
    by (simp add: virtualLength_def v_def)
  from expand_bounds [of 0 w "take n t"] w lb(1) len
  have vb: "int n \<le> v" "v \<le> int n * w" by (simp_all add: v_def)
  with n c have vc: "c \<le> v" and v0: "0 \<le> v" by simp_all
  define m where "m = nat (min (int (length t)) v)"
  from vc n have nm: "n \<le> m" "m \<le> length t" unfolding m_def by linarith+
  then have split: "take m t = take n t @ drop n (take m t)"
    by (metis append_take_drop_id min.absorb1 take_take)
  have "fromVirtualColumn_loop w v (take m t) 0 0 =
        fromVirtualColumn_loop w v (drop n (take m t)) (0 + int (length (take n t))) (expand w (take n t) 0)"
    by (subst split, rule loop_skip) (use w lb len in \<open>simp_all add: v_def\<close>)
  also have "\<dots> = fromVirtualColumn_loop w v (drop n (take m t)) c v"
    using n by (simp add: v_def)
  also have "\<dots> = (c, v)"
  proof (rule loop_stop [OF v0 w])
    show "drop n (take m t) = [] \<or> v + w \<le> INT_MAX"
    proof (cases "n < length t")
      case True
      then have "Suc n \<le> length t" by simp
      from length_bound(1) [OF w b' c this] have "int n * w + w \<le> INT_MAX"
        by (simp add: algebra_simps)
      with vb show ?thesis by linarith
    next
      case False
      with nm have "drop n (take m t) = []" by simp
      then show ?thesis ..
    qed
  qed
  finally have l: "fromVirtualColumn_loop w v (take m t) 0 0 = (c, v)" .
  from c lb(2) n have "int32 c = c" by (intro int32_id) linarith+
  then have "fromVirtualColumn t v w = c"
    using v0 l by (simp add: fromVirtualColumn_def m_def int32_def)
  with tv show ?thesis by simp
next
  case False
  define X where "X = expand w t 0"
  define v where "v = X + c - int (length t)"
  from b have b': "int (length t) * w + c \<le> INT_MAX" by (simp add: withinInt_def)
  note lb = length_bound [OF w b' c order_refl]
  from False to_past_end [OF w _ b] have tv: "toVirtualColumn t c w = v"
    by (simp add: v_def X_def virtualLength_def)
  from expand_bounds [of 0 w t] w lb(1)
  have X: "int (length t) \<le> X" "X \<le> int (length t) * w" by (simp_all add: X_def)
  with False have Xv: "X < v" "int (length t) \<le> v" "0 \<le> v" by (simp_all add: v_def)
  have "fromVirtualColumn_loop w v (t @ []) 0 0 =
        fromVirtualColumn_loop w v [] (0 + int (length t)) (expand w t 0)"
    by (rule loop_skip) (use w Xv lb in \<open>simp_all add: X_def\<close>)
  then have l: "fromVirtualColumn_loop w v t 0 0 = (int (length t), X)"
    by (simp add: X_def)
  have vX: "v - X = c - int (length t)" by (simp add: v_def)
  from False b' lb(1,4) w have 1: "int32 (v - X) = v - X"
    unfolding vX by (intro int32_id) linarith+
  from c b' lb have 2: "int32 c = c" by (intro int32_id) linarith+
  have "int (length t) + max (v - X) 0 = c" using False by (simp add: v_def)
  then have "fromVirtualColumn t v w = c"
    using Xv l 1 2 by (simp add: fromVirtualColumn_def min_def)
  with tv show ?thesis by simp
qed

section \<open>Attribute runs: proofs\<close>

lemma upper_bound_0: "upper_bound xs pos first 0 = first"
  by (subst upper_bound.simps) simp

lemma sortedRuns_sorted_wrt:
  "sortedRuns xs \<Longrightarrow> sorted_wrt (\<lambda>x y. offset x + length' x \<le> offset y) xs"
proof (induction xs rule: sortedRuns.induct)
  case (3 x y ys)
  then have le: "offset x + length' x \<le> offset y" and s: "sorted_wrt (\<lambda>x y. offset x + length' x \<le> offset y) (y # ys)"
    by simp_all
  have "offset x + length' x \<le> offset z" if "z \<in> set (y # ys)" for z
  proof (cases "z = y")
    case True
    with le show ?thesis by simp
  next
    case False
    with that s have "offset y + length' y \<le> offset z" by auto
    with le show ?thesis by linarith
  qed
  with s show ?case by simp
qed simp_all

lemma sortedRuns_nth:
  "sortedRuns xs \<Longrightarrow> i < j \<Longrightarrow> j < length xs \<Longrightarrow> offset (xs ! i) + length' (xs ! i) \<le> offset (xs ! j)"
  using sortedRuns_sorted_wrt [of xs] by (simp add: sorted_wrt_iff_nth_less)

lemma upper_bound_partition:
  assumes "first + count \<le> length xs"
    and "\<And>i j. first \<le> i \<Longrightarrow> i \<le> j \<Longrightarrow> j < first + count \<Longrightarrow>
           pos < int (offset (xs ! i) + length' (xs ! i)) \<Longrightarrow> pos < int (offset (xs ! j) + length' (xs ! j))"
  shows "first \<le> upper_bound xs pos first count \<and> upper_bound xs pos first count \<le> first + count
       \<and> (\<forall>i. first \<le> i \<and> i < upper_bound xs pos first count \<longrightarrow> \<not> pos < int (offset (xs ! i) + length' (xs ! i)))
       \<and> (\<forall>i. upper_bound xs pos first count \<le> i \<and> i < first + count \<longrightarrow> pos < int (offset (xs ! i) + length' (xs ! i)))"
  using assms
proof (induction xs pos first count rule: upper_bound.induct)
  case (1 xs pos first count)
  let ?P = "\<lambda>i. pos < int (offset (xs ! i) + length' (xs ! i))"
  show ?case
  proof (cases "0 < count")
    case False
    then show ?thesis by (simp add: upper_bound_0)
  next
    case True
    define step where "step = count div 2"
    define it where "it = first + step"
    have st: "step < count" using True by (simp add: step_def)
    show ?thesis
    proof (cases "?P it")
      case False
      define r where "r = upper_bound xs pos (it + 1) (count - (step + 1))"
      have eq: "upper_bound xs pos first count = r"
        using True False unfolding r_def it_def step_def
        by (subst upper_bound.simps) (simp only: Let_def if_True if_False not_False_eq_True)
      have b: "it + 1 + (count - (step + 1)) \<le> length xs"
        using "1.prems"(1) st by (simp add: it_def)
      have m: "?P j" if "it + 1 \<le> i" "i \<le> j" "j < it + 1 + (count - (step + 1))" "?P i" for i j
      proof (rule "1.prems"(2) [of i j])
        show "first \<le> i" using that(1) by (simp add: it_def)
        show "i \<le> j" by fact
        show "j < first + count" using that(3) st by (simp add: it_def)
        show "?P i" by fact
      qed
      have IH: "it + 1 \<le> r \<and> r \<le> it + 1 + (count - (step + 1))
          \<and> (\<forall>i. it + 1 \<le> i \<and> i < r \<longrightarrow> \<not> ?P i)
          \<and> (\<forall>i. r \<le> i \<and> i < it + 1 + (count - (step + 1)) \<longrightarrow> ?P i)"
        unfolding r_def
      proof (rule "1.IH"(1) [OF True step_def it_def False b])
        fix i j
        assume "it + 1 \<le> i" "i \<le> j" "j < it + 1 + (count - (step + 1))" "?P i"
        then show "?P j" by (rule m)
      qed
      have e: "it + 1 + (count - (step + 1)) = first + count" using st by (simp add: it_def)
      have low: "\<not> ?P i" if "first \<le> i" "i \<le> it" for i
      proof
        assume "?P i"
        have "?P it"
        proof (rule "1.prems"(2) [of i it])
          show "it < first + count" using st by (simp add: it_def)
        qed (use that \<open>?P i\<close> in simp_all)
        with False show False by simp
      qed
      from IH have r1: "it + 1 \<le> r" and r2: "r \<le> first + count"
        and r3: "\<And>i. it + 1 \<le> i \<Longrightarrow> i < r \<Longrightarrow> \<not> ?P i"
        and r4: "\<And>i. r \<le> i \<Longrightarrow> i < first + count \<Longrightarrow> ?P i"
        unfolding e by blast+
      have "first \<le> r" using r1 by (simp add: it_def)
      moreover have "\<not> ?P i" if "first \<le> i" "i < r" for i
      proof (cases "i \<le> it")
        case True
        with that low show ?thesis by blast
      next
        case False
        then have "it + 1 \<le> i" by simp
        with that r3 show ?thesis by blast
      qed
      ultimately show ?thesis unfolding eq using r2 r4 by blast
    next
      case Pit: True
      define r where "r = upper_bound xs pos first step"
      have eq: "upper_bound xs pos first count = r"
        using True Pit unfolding r_def it_def step_def
        by (subst upper_bound.simps) (simp only: Let_def if_True if_False not_True_eq_False)
      have b: "first + step \<le> length xs" using "1.prems"(1) st by simp
      have m: "?P j" if "first \<le> i" "i \<le> j" "j < first + step" "?P i" for i j
      proof (rule "1.prems"(2) [of i j])
        show "j < first + count" using that(3) st by simp
      qed (use that in simp_all)
      have nn: "\<not> \<not> ?P it" using Pit by simp
      have IH: "first \<le> r \<and> r \<le> first + step
          \<and> (\<forall>i. first \<le> i \<and> i < r \<longrightarrow> \<not> ?P i)
          \<and> (\<forall>i. r \<le> i \<and> i < first + step \<longrightarrow> ?P i)"
        unfolding r_def
      proof (rule "1.IH"(2) [OF True step_def it_def nn b])
        fix i j
        assume "first \<le> i" "i \<le> j" "j < first + step" "?P i"
        then show "?P j" by (rule m)
      qed
      have high: "?P i" if "it \<le> i" "i < first + count" for i
      proof (rule "1.prems"(2) [of it i])
        show "first \<le> it" by (simp add: it_def)
      qed (use that Pit in simp_all)
      from IH have r1: "first \<le> r" and r2: "r \<le> first + step"
        and r3: "\<And>i. first \<le> i \<Longrightarrow> i < r \<Longrightarrow> \<not> ?P i"
        and r4: "\<And>i. r \<le> i \<Longrightarrow> i < first + step \<Longrightarrow> ?P i"
        by blast+
      have "r \<le> first + count" using r2 st by simp
      moreover have "?P i" if "r \<le> i" "i < first + count" for i
      proof (cases "i < first + step")
        case True
        with that r4 show ?thesis by blast
      next
        case False
        then have "it \<le> i" by (simp add: it_def)
        with that high show ?thesis by blast
      qed
      ultimately show ?thesis unfolding eq using r1 r3 by blast
    qed
  qed
qed


lemma attribute_found:
  assumes s: "sortedRuns xs" and i: "i < length xs" and c: "spanContains (xs ! i) pos"
  shows "upper_bound xs pos 0 (length xs) = i"
proof -
  let ?P = "\<lambda>i. pos < int (offset (xs ! i) + length' (xs ! i))"
  define r where "r = upper_bound xs pos 0 (length xs)"
  have mono: "?P k" if "j \<le> k" "k < length xs" "?P j" for j k
  proof (cases "j = k")
    case True
    with that show ?thesis by simp
  next
    case False
    with that have "j < k" by simp
    from sortedRuns_nth [OF s this that(2)] that(3) show ?thesis by linarith
  qed
  have part: "0 \<le> r \<and> r \<le> 0 + length xs
       \<and> (\<forall>i. 0 \<le> i \<and> i < r \<longrightarrow> \<not> ?P i)
       \<and> (\<forall>i. r \<le> i \<and> i < 0 + length xs \<longrightarrow> ?P i)"
    unfolding r_def
  proof (rule upper_bound_partition)
    fix j k
    assume "0 \<le> j" "j \<le> k" "k < 0 + length xs" "?P j"
    then show "?P k" using mono [of j k] by simp
  qed simp
  from c have Pi: "?P i" and oi: "int (offset (xs ! i)) \<le> pos" by (simp_all add: spanContains_def)
  from part Pi have ri: "r \<le> i" by (meson le0 not_le_imp_less)
  have "r = i"
  proof (rule ccontr)
    assume "r \<noteq> i"
    with ri have lt: "r < i" by simp
    with i part have "?P r" by simp
    moreover from sortedRuns_nth [OF s lt i] have "offset (xs ! r) + length' (xs ! r) \<le> offset (xs ! i)" .
    ultimately show False using oi by linarith
  qed
  then show ?thesis by (simp add: r_def)
qed

lemma attribute_value:
  assumes "sortedRuns xs" "i < length xs" "spanContains (xs ! i) pos"
  shows "attribute xs pos = attributeValue (xs ! i)"
  using attribute_found [OF assms] assms(2,3)
  by (simp add: attribute_def Let_def spanContains_def)

lemma upper_bound_range:
  "first \<le> upper_bound xs pos first count \<and> upper_bound xs pos first count \<le> first + count"
proof (induction xs pos first count rule: upper_bound.induct)
  case (1 xs pos first count)
  show ?case
  proof (cases "0 < count")
    case False
    then show ?thesis by (simp add: upper_bound_0)
  next
    case True
    define step where "step = count div 2"
    define it where "it = first + step"
    have st: "step < count" using True by (simp add: step_def)
    show ?thesis
    proof (cases "pos < int (offset (xs ! it) + length' (xs ! it))")
      case False
      have eq: "upper_bound xs pos first count = upper_bound xs pos (it + 1) (count - (step + 1))"
        using True False unfolding it_def step_def
        by (subst upper_bound.simps) (simp only: Let_def if_True if_False not_False_eq_True)
      from "1.IH"(1) [OF True step_def it_def False] st show ?thesis
        unfolding eq by (simp add: it_def)
    next
      case Pit: True
      have eq: "upper_bound xs pos first count = upper_bound xs pos first step"
        using True Pit unfolding it_def step_def
        by (subst upper_bound.simps) (simp only: Let_def if_True if_False not_True_eq_False)
      have nn: "\<not> \<not> pos < int (offset (xs ! it) + length' (xs ! it))" using Pit by simp
      from "1.IH"(2) [OF True step_def it_def nn] st show ?thesis
        unfolding eq by simp
    qed
  qed
qed

lemma attribute_none:
  assumes "\<And>i. i < length xs \<Longrightarrow> \<not> spanContains (xs ! i) pos"
  shows "attribute xs pos = 0"
proof -
  define r where "r = upper_bound xs pos 0 (length xs)"
  from upper_bound_range [of 0 xs pos "length xs"] have "r \<le> length xs" by (simp add: r_def)
  then have "r = length xs \<or> \<not> spanContains (xs ! r) pos"
    using assms [of r] by (cases "r = length xs") simp_all
  then show ?thesis
    by (auto simp add: attribute_def Let_def spanContains_def r_def [symmetric])
qed

lemma runsOverlap_position:
  "runsOverlap x y \<longleftrightarrow> (\<exists>pos. spanContains x pos \<and> spanContains y pos)"
proof
  assume "runsOverlap x y"
  then have "spanContains x (int (max (offset x) (offset y)))
      \<and> spanContains y (int (max (offset x) (offset y)))"
    by (auto simp add: runsOverlap_def spanContains_def)
  then show "\<exists>pos. spanContains x pos \<and> spanContains y pos" ..
next
  assume "\<exists>pos. spanContains x pos \<and> spanContains y pos"
  then show "runsOverlap x y"
    by (auto simp add: runsOverlap_def spanContains_def)
qed

lemma sortedRuns_consecutive:
  "sortedRuns xs \<longleftrightarrow> (\<forall>i. Suc i < length xs \<longrightarrow> offset (xs ! i) + length' (xs ! i) \<le> offset (xs ! Suc i))"
proof (induction xs rule: sortedRuns.induct)
  case (3 x y ys)
  show ?case
  proof
    assume a: "sortedRuns (x # y # ys)"
    with 3 have r: "\<forall>i. Suc i < length (y # ys) \<longrightarrow>
        offset ((y # ys) ! i) + length' ((y # ys) ! i) \<le> offset ((y # ys) ! Suc i)" by simp
    show "\<forall>i. Suc i < length (x # y # ys) \<longrightarrow>
        offset ((x # y # ys) ! i) + length' ((x # y # ys) ! i) \<le> offset ((x # y # ys) ! Suc i)"
    proof (intro allI impI)
      fix i assume i: "Suc i < length (x # y # ys)"
      show "offset ((x # y # ys) ! i) + length' ((x # y # ys) ! i) \<le> offset ((x # y # ys) ! Suc i)"
      proof (cases i)
        case 0
        with a show ?thesis by simp
      next
        case (Suc k)
        with i r show ?thesis by simp
      qed
    qed
  next
    assume a: "\<forall>i. Suc i < length (x # y # ys) \<longrightarrow>
        offset ((x # y # ys) ! i) + length' ((x # y # ys) ! i) \<le> offset ((x # y # ys) ! Suc i)"
    from a [rule_format, of 0] have h: "offset x + length' x \<le> offset y" by simp
    have "\<forall>i. Suc i < length (y # ys) \<longrightarrow>
        offset ((y # ys) ! i) + length' ((y # ys) ! i) \<le> offset ((y # ys) ! Suc i)"
    proof (intro allI impI)
      fix i assume "Suc i < length (y # ys)"
      with a [rule_format, of "Suc i"]
      show "offset ((y # ys) ! i) + length' ((y # ys) ! i) \<le> offset ((y # ys) ! Suc i)" by simp
    qed
    with 3 h show "sortedRuns (x # y # ys)" by simp
  qed
qed simp_all

lemma sortedRuns_spans:
  assumes pos: "\<forall>x\<in>set xs. 0 < length' x"
  shows "sortedRuns xs \<longleftrightarrow> sortedDisjointRuns xs"
proof
  assume s: "sortedRuns xs"
  have le: "offset (xs ! i) + length' (xs ! i) \<le> offset (xs ! j)" if "i < j" "j < length xs" for i j
    using sortedRuns_nth [OF s that] .
  have "sorted (map offset xs)"
  proof (simp add: sorted_iff_nth_mono_less, intro allI impI)
    fix i j assume "i < j" "j < length xs"
    from le [OF this] show "offset (xs ! i) \<le> offset (xs ! j)" by simp
  qed
  moreover have "\<not> runsOverlap (xs ! i) (xs ! j)" if "i < j" "j < length xs" for i j
    using le [OF that] by (simp add: runsOverlap_def)
  ultimately show "sortedDisjointRuns xs" by (simp add: sortedDisjointRuns_def)
next
  assume d: "sortedDisjointRuns xs"
  show "sortedRuns xs"
    unfolding sortedRuns_consecutive
  proof (intro allI impI)
    fix i assume i: "Suc i < length xs"
    from d i have o: "offset (xs ! i) \<le> offset (xs ! Suc i)"
      by (simp add: sortedDisjointRuns_def sorted_iff_nth_mono_less)
    from d i have n: "\<not> runsOverlap (xs ! i) (xs ! Suc i)"
      by (simp add: sortedDisjointRuns_def)
    from pos i have "0 < length' (xs ! Suc i)" by simp
    with o n show "offset (xs ! i) + length' (xs ! i) \<le> offset (xs ! Suc i)"
      by (simp add: runsOverlap_def)
  qed
qed

lemma noTouchingDuplicate_snoc:
  "noTouchingDuplicate (xs @ [a]) \<longleftrightarrow>
   noTouchingDuplicate xs \<and>
   (xs = [] \<or> \<not> (attributeValue (last xs) = attributeValue a \<and> offset (last xs) + length' (last xs) = offset a))"
  by (induction xs rule: noTouchingDuplicate.induct) auto

lemma noAdjacentDuplicate_snoc:
  "noAdjacentDuplicate (xs @ [a]) \<longleftrightarrow>
   noAdjacentDuplicate xs \<and> (xs = [] \<or> attributeValue (last xs) \<noteq> attributeValue a)"
  by (induction xs rule: noAdjacentDuplicate.induct) auto

lemma addAttribute_merge:
  assumes "m \<noteq> []"
    and "attributeValue (last m) = attributeValue a"
    and "offset (last m) + length' (last m) = offset a"
  shows "addAttribute m a = butlast m @ [(last m)\<lparr>length' := length' (last m) + length' a\<rparr>]"
  using assms by (simp add: addAttribute_def)

lemma addAttribute_append:
  assumes "m = [] \<or> attributeValue (last m) \<noteq> attributeValue a
      \<or> offset (last m) + length' (last m) \<noteq> offset a"
  shows "addAttribute m a = m @ [a]"
  using assms by (auto simp add: addAttribute_def)

lemma addAttribute_touching:
  assumes "noTouchingDuplicate m"
  shows "noTouchingDuplicate (addAttribute m a)"
proof (cases "m \<noteq> [] \<and> attributeValue (last m) = attributeValue a
      \<and> offset (last m) + length' (last m) = offset a")
  case True
  then obtain ys l where m: "m = ys @ [l]" by (metis append_butlast_last_id)
  from True have "addAttribute m a = ys @ [l\<lparr>length' := length' l + length' a\<rparr>]"
    by (simp add: addAttribute_def m)
  moreover from assms have "noTouchingDuplicate (ys @ [l\<lparr>length' := length' l + length' a\<rparr>])"
    unfolding m noTouchingDuplicate_snoc by simp
  ultimately show ?thesis by simp
next
  case False
  then have "addAttribute m a = m @ [a]" by (auto simp add: addAttribute_def)
  with False assms show ?thesis by (auto simp add: noTouchingDuplicate_snoc)
qed

lemma addAttribute_adjacent:
  assumes "noAdjacentDuplicate m"
    and "m = [] \<or> attributeValue (last m) \<noteq> attributeValue a
      \<or> offset (last m) + length' (last m) = offset a"
  shows "noAdjacentDuplicate (addAttribute m a)"
proof (cases "m \<noteq> [] \<and> attributeValue (last m) = attributeValue a
      \<and> offset (last m) + length' (last m) = offset a")
  case True
  then obtain ys l where m: "m = ys @ [l]" by (metis append_butlast_last_id)
  from True have "addAttribute m a = ys @ [l\<lparr>length' := length' l + length' a\<rparr>]"
    by (simp add: addAttribute_def m)
  moreover from assms(1) have "noAdjacentDuplicate (ys @ [l\<lparr>length' := length' l + length' a\<rparr>])"
    unfolding m noAdjacentDuplicate_snoc by simp
  ultimately show ?thesis by simp
next
  case False
  then have "addAttribute m a = m @ [a]" by (auto simp add: addAttribute_def)
  with False assms show ?thesis by (auto simp add: noAdjacentDuplicate_snoc)
qed

section \<open>Text line: the verified properties\<close>

text \<open>
  C10, amended: for every line text, every tab width \<open>w \<ge> 1\<close> and every character column
  \<open>c \<ge> 0\<close>, also past the end of the line, such that the line's length times the tab
  width, plus \<open>c\<close>, is at most \<open>INT_MAX\<close> (so that no \<open>int\<close> computation overflows),
  \<open>fromVirtualColumn (toVirtualColumn c w) w = c\<close>: there \<open>fromVirtualColumn\<close> is an
  exact left inverse of \<open>toVirtualColumn\<close>.
\<close>

theorem fromVirtualColumn_toVirtualColumn:
  "0 \<le> c \<Longrightarrow> 1 \<le> w \<Longrightarrow> withinInt t w c \<Longrightarrow> fromVirtualColumn t (toVirtualColumn t c w) w = c"
  by (rule from_to_inverse)

text \<open>
  The line \<open>a<TAB>b\<close> with tab width 4: character column 2 is virtual column 4 and comes
  back as 2; column 7, past the end, comes back as 7.
\<close>

theorem fromVirtualColumn_toVirtualColumn_witness:
  "(0::int) \<le> 7 \<and> (1::int) \<le> 4 \<and> withinInt [CHR ''a'', tab, CHR ''b''] 4 7
   \<and> toVirtualColumn [CHR ''a'', tab, CHR ''b''] 2 4 = 4
   \<and> fromVirtualColumn [CHR ''a'', tab, CHR ''b''] 4 4 = 2
   \<and> fromVirtualColumn [CHR ''a'', tab, CHR ''b''] (toVirtualColumn [CHR ''a'', tab, CHR ''b''] 7 4) 4 = 7"
proof -
  have c: "(0::int) \<le> 7" and w: "(1::int) \<le> 4" by simp_all
  have i: "withinInt [CHR ''a'', tab, CHR ''b''] 4 7" and i2: "withinInt [CHR ''a'', tab, CHR ''b''] 4 2"
    by (simp_all add: withinInt_def INT_MAX_def)
  have t: "toVirtualColumn [CHR ''a'', tab, CHR ''b''] 2 4 = 4"
    by (simp add: toVirtualColumn_def tab_def signed_modulo_int_def int32_def)
  have "(0::int) \<le> 2" by simp
  from fromVirtualColumn_toVirtualColumn [OF this w i2] t
  have f: "fromVirtualColumn [CHR ''a'', tab, CHR ''b''] 4 4 = 2" by simp
  from c w i t f fromVirtualColumn_toVirtualColumn [OF c w i]
  show ?thesis by simp
qed

text \<open>
  C10 as stated fails where the \<open>int\<close> arithmetic overflows: on the line \<open><TAB>\<close> with tab
  width 4, character column 2147483647 has visual column 2147483650, which is no \<open>int\<close>;
  \<open>toVirtualColumn\<close> returns -2147483646, and \<open>fromVirtualColumn\<close> of a negative
  column is 0.
\<close>

theorem fromVirtualColumn_toVirtualColumn_counterexample:
  "toVirtualColumn [tab] 2147483647 4 = - 2147483646
   \<and> fromVirtualColumn [tab] (toVirtualColumn [tab] 2147483647 4) 4 = 0
   \<and> fromVirtualColumn [tab] (toVirtualColumn [tab] 2147483647 4) 4 \<noteq> 2147483647"
  by (simp add: toVirtualColumn_def fromVirtualColumn_def signed_modulo_int_def int32_def)

text \<open>
  C6, amended: for every line text, every tab width \<open>w \<ge> 1\<close> and every virtual column
  \<open>v \<ge> 0\<close> that lands on a character boundary (the visual width of a prefix of the line,
  or a column at or beyond the visual width of the whole line), such that the line's length
  times the tab width, plus \<open>v\<close>, is at most \<open>INT_MAX\<close> (so that no \<open>int\<close> computation
  overflows), \<open>toVirtualColumn (fromVirtualColumn v w) w = v\<close>.
\<close>

theorem toVirtualColumn_fromVirtualColumn:
  assumes w: "1 \<le> w" and v: "0 \<le> v" and b: "onCharBoundary t w v" and i: "withinInt t w v"
  shows "toVirtualColumn t (fromVirtualColumn t v w) w = v"
proof -
  from i have i': "int (length t) * w + v \<le> INT_MAX" by (simp add: withinInt_def)
  have "(\<exists>k\<le>length t. v = virtualLength (take k t) w) \<or> virtualLength t w \<le> v"
  proof (cases "virtualLength t w \<le> v")
    case True
    then show ?thesis by simp
  next
    case False
    with b have "v \<in> (\<lambda>k. virtualLength (take k t) w) ` set [0..<Suc (length t)]"
      by (simp only: onCharBoundary_def set_map simp_thms)
    then obtain k where "k \<in> set [0..<Suc (length t)]" and "v = virtualLength (take k t) w"
      by (rule imageE)
    then have "k \<le> length t \<and> v = virtualLength (take k t) w" by auto
    then show ?thesis by blast
  qed
  then consider (prefix) k where "k \<le> length t" "v = virtualLength (take k t) w"
    | (past) "virtualLength t w \<le> v"
    by blast
  then show ?thesis
  proof cases
    case prefix
    note lb = length_bound [OF w i' v prefix(1)]
    from prefix(1) have "length (take k t) = k" by simp
    with expand_bounds [of 0 w "take k t"] w lb(1) prefix(2)
    have "int k \<le> v" by (simp add: virtualLength_def)
    with i' have ik: "withinInt t w (int k)" by (simp add: withinInt_def)
    from to_at_prefix [OF w prefix(1) ik] prefix(2)
    have tv: "toVirtualColumn t (int k) w = v" by simp
    have "fromVirtualColumn t (toVirtualColumn t (int k) w) w = int k"
      by (rule from_to_inverse) (use w ik in simp_all)
    with tv show ?thesis by simp
  next
    case past
    define c where "c = int (length t) + (v - virtualLength t w)"
    note lb = length_bound [OF w i' v order_refl]
    from expand_bounds [of 0 w t] w lb(1)
    have "int (length t) \<le> virtualLength t w" by (simp add: virtualLength_def)
    with past i' have c: "int (length t) \<le> c" "0 \<le> c" and ic: "withinInt t w c"
      by (simp_all add: c_def withinInt_def)
    from to_past_end [OF w c(1) ic] have tv: "toVirtualColumn t c w = v" by (simp add: c_def)
    have "fromVirtualColumn t (toVirtualColumn t c w) w = c"
      by (rule from_to_inverse) (use w c ic in simp_all)
    with tv show ?thesis by simp
  qed
qed

text \<open>
  The line \<open>a<TAB>b\<close> with tab width 4: virtual columns 4 (after the tab) and 9 (past the
  end) are boundaries and round-trip; virtual column 3 lies inside the tab and is none.
\<close>

theorem toVirtualColumn_fromVirtualColumn_witness:
  "(1::int) \<le> 4 \<and> (0::int) \<le> 4 \<and> onCharBoundary [CHR ''a'', tab, CHR ''b''] 4 4
   \<and> withinInt [CHR ''a'', tab, CHR ''b''] 4 4
   \<and> toVirtualColumn [CHR ''a'', tab, CHR ''b''] (fromVirtualColumn [CHR ''a'', tab, CHR ''b''] 4 4) 4 = 4
   \<and> onCharBoundary [CHR ''a'', tab, CHR ''b''] 4 9
   \<and> withinInt [CHR ''a'', tab, CHR ''b''] 4 9
   \<and> toVirtualColumn [CHR ''a'', tab, CHR ''b''] (fromVirtualColumn [CHR ''a'', tab, CHR ''b''] 9 4) 4 = 9
   \<and> \<not> onCharBoundary [CHR ''a'', tab, CHR ''b''] 4 3"
proof -
  have w: "(1::int) \<le> 4" and v: "(0::int) \<le> 4" and v9: "(0::int) \<le> 9" by simp_all
  have i: "withinInt [CHR ''a'', tab, CHR ''b''] 4 4" and i9: "withinInt [CHR ''a'', tab, CHR ''b''] 4 9"
    by (simp_all add: withinInt_def INT_MAX_def)
  have b: "onCharBoundary [CHR ''a'', tab, CHR ''b''] 4 4"
    by (simp add: onCharBoundary_def virtualLength_def tab_def signed_modulo_int_def int32_def upt_rec)
  have b9: "onCharBoundary [CHR ''a'', tab, CHR ''b''] 4 9"
    by (simp add: onCharBoundary_def virtualLength_def tab_def signed_modulo_int_def int32_def)
  have nb: "\<not> onCharBoundary [CHR ''a'', tab, CHR ''b''] 4 3"
    by (simp add: onCharBoundary_def virtualLength_def tab_def signed_modulo_int_def int32_def upt_rec)
  from w v b b9 nb i i9 toVirtualColumn_fromVirtualColumn [OF w v b i]
    toVirtualColumn_fromVirtualColumn [OF w v9 b9 i9]
  show ?thesis by simp
qed

text \<open>
  C6 as stated fails where the \<open>int\<close> arithmetic overflows: on the line \<open><TAB><TAB>\<close> with
  tab width 1073741824, virtual column 1073741824 is the visual width of the first tab, a
  character boundary. In \<open>fromVirtualColumn\<close> the second tab makes \<open>x + diff\<close> wrap to
  -2147483648, which is not beyond the column, so the loop runs on and returns 2; and
  \<open>toVirtualColumn\<close> of character column 2 wraps to -2147483648.
\<close>

theorem toVirtualColumn_fromVirtualColumn_counterexample:
  "onCharBoundary [tab, tab] 1073741824 1073741824
   \<and> fromVirtualColumn [tab, tab] 1073741824 1073741824 = 2
   \<and> toVirtualColumn [tab, tab] (fromVirtualColumn [tab, tab] 1073741824 1073741824) 1073741824
       = - 2147483648
   \<and> toVirtualColumn [tab, tab] (fromVirtualColumn [tab, tab] 1073741824 1073741824) 1073741824
       \<noteq> 1073741824"
proof -
  have b: "onCharBoundary [tab, tab] 1073741824 1073741824"
    by (simp add: onCharBoundary_def virtualLength_def signed_modulo_int_def int32_def upt_rec)
  have f: "fromVirtualColumn [tab, tab] 1073741824 1073741824 = 2"
    by (simp add: fromVirtualColumn_def signed_modulo_int_def int32_def)
  have t: "toVirtualColumn [tab, tab] 2 1073741824 = - 2147483648"
    by (simp add: toVirtualColumn_def signed_modulo_int_def int32_def)
  from b f t show ?thesis by simp
qed

text \<open>
  C8: for every list of runs that is sorted ascending by offset and non-overlapping (each
  run ends at or before the offset of the next; for runs of positive length that is:
  ascending offsets and no position in two spans) and every position \<open>pos\<close>,
  \<open>attribute pos\<close> is the \<open>attributeValue\<close> of the run whose span
  \<open>[offset, offset + length)\<close> contains \<open>pos\<close>, that run is the only one containing
  \<open>pos\<close>, and \<open>attribute pos\<close> is 0 when no run contains \<open>pos\<close>.
\<close>

theorem attribute_lookup:
  assumes "sortedRuns runs"
  shows "(\<forall>i<length runs. spanContains (runs ! i) pos \<longrightarrow>
            attribute runs pos = attributeValue (runs ! i)
            \<and> (\<forall>j<length runs. spanContains (runs ! j) pos \<longrightarrow> j = i))
       \<and> ((\<forall>i<length runs. \<not> spanContains (runs ! i) pos) \<longrightarrow> attribute runs pos = 0)"
proof (intro conjI allI impI)
  fix i assume "i < length runs" "spanContains (runs ! i) pos"
  with assms show "attribute runs pos = attributeValue (runs ! i)" by (rule attribute_value)
next
  fix i j
  assume "i < length runs" "spanContains (runs ! i) pos" "j < length runs" "spanContains (runs ! j) pos"
  with assms attribute_found [of runs i pos] attribute_found [of runs j pos] show "j = i" by simp
next
  assume "\<forall>i<length runs. \<not> spanContains (runs ! i) pos"
  then show "attribute runs pos = 0" by (simp add: attribute_none)
qed

text \<open>Two runs, \<open>[0, 5)\<close> of value 1 and \<open>[7, 9)\<close> of value 3: position 8 has value 3, position 6 lies in the gap.\<close>

theorem attribute_lookup_witness:
  "sortedRuns [\<lparr>offset = 0, length' = 5, attributeValue = 1\<rparr>, \<lparr>offset = 7, length' = 2, attributeValue = 3\<rparr>]
   \<and> attribute [\<lparr>offset = 0, length' = 5, attributeValue = 1\<rparr>, \<lparr>offset = 7, length' = 2, attributeValue = 3\<rparr>] 8 = 3
   \<and> attribute [\<lparr>offset = 0, length' = 5, attributeValue = 1\<rparr>, \<lparr>offset = 7, length' = 2, attributeValue = 3\<rparr>] 6 = 0"
proof -
  let ?R = "[\<lparr>offset = 0, length' = 5, attributeValue = 1\<rparr>, \<lparr>offset = 7, length' = 2, attributeValue = 3\<rparr>]"
  have s: "sortedRuns ?R" by simp
  note L = attribute_lookup [OF s]
  from L [of 8] have "1 < length ?R \<longrightarrow> spanContains (?R ! 1) 8 \<longrightarrow>
      attribute ?R 8 = attributeValue (?R ! 1)"
    by blast
  then have "attribute ?R 8 = 3" by (simp add: spanContains_def)
  moreover have "\<forall>i<length ?R. \<not> spanContains (?R ! i) 6"
    by (simp add: spanContains_def less_Suc_eq)
  with L [of 6] have "attribute ?R 6 = 0" by blast
  ultimately show ?thesis using s by simp
qed

text \<open>
  C9 as stated fails: a run of value 1 spanning \<open>[0, 5)\<close> followed by a new run of value 1
  at offset 7, after the end of the first, is appended, not merged, and the list then has two
  consecutive runs of the same value.
\<close>

theorem addAttribute_duplicates_counterexample:
  "noAdjacentDuplicate [\<lparr>offset = 0, length' = 5, attributeValue = 1\<rparr>]
   \<and> offset \<lparr>offset = 0, length' = 5, attributeValue = 1\<rparr> + length' \<lparr>offset = 0, length' = 5, attributeValue = 1\<rparr>
       \<le> offset \<lparr>offset = 7, length' = 2, attributeValue = 1\<rparr>
   \<and> addAttribute [\<lparr>offset = 0, length' = 5, attributeValue = 1\<rparr>] \<lparr>offset = 7, length' = 2, attributeValue = 1\<rparr>
       = [\<lparr>offset = 0, length' = 5, attributeValue = 1\<rparr>, \<lparr>offset = 7, length' = 2, attributeValue = 1\<rparr>]
   \<and> \<not> noAdjacentDuplicate
         (addAttribute [\<lparr>offset = 0, length' = 5, attributeValue = 1\<rparr>] \<lparr>offset = 7, length' = 2, attributeValue = 1\<rparr>)"
  by (simp add: addAttribute_def)

text \<open>
  C9, amended: \<open>addAttribute\<close> keeps the invariant that no two consecutive runs that touch
  share the same \<open>attributeValue\<close>, for every new run; it keeps the invariant that no two
  consecutive runs share the same \<open>attributeValue\<close> when the new run differs in value from
  the last run or starts exactly at its end; and the new run is merged into the last run
  (the list keeps its length, the last run grows by the new run's length) exactly when the
  two values are equal and the last run ends exactly at the new run's offset, and is
  appended otherwise.
\<close>

theorem addAttribute_invariant:
  "(noTouchingDuplicate m \<longrightarrow> noTouchingDuplicate (addAttribute m a))
   \<and> (noAdjacentDuplicate m \<and>
        (m = [] \<or> attributeValue (last m) \<noteq> attributeValue a
          \<or> offset (last m) + length' (last m) = offset a)
       \<longrightarrow> noAdjacentDuplicate (addAttribute m a))
   \<and> addAttribute m a =
       (if m \<noteq> [] \<and> attributeValue (last m) = attributeValue a
           \<and> offset (last m) + length' (last m) = offset a
        then butlast m @ [(last m)\<lparr>length' := length' (last m) + length' a\<rparr>]
        else m @ [a])
   \<and> (length (addAttribute m a) = length m \<longleftrightarrow>
        m \<noteq> [] \<and> attributeValue (last m) = attributeValue a
          \<and> offset (last m) + length' (last m) = offset a)"
proof (intro conjI impI)
  assume "noTouchingDuplicate m"
  then show "noTouchingDuplicate (addAttribute m a)" by (rule addAttribute_touching)
next
  assume "noAdjacentDuplicate m \<and>
        (m = [] \<or> attributeValue (last m) \<noteq> attributeValue a
          \<or> offset (last m) + length' (last m) = offset a)"
  then show "noAdjacentDuplicate (addAttribute m a)" by (simp add: addAttribute_adjacent)
next
  show "addAttribute m a =
       (if m \<noteq> [] \<and> attributeValue (last m) = attributeValue a
           \<and> offset (last m) + length' (last m) = offset a
        then butlast m @ [(last m)\<lparr>length' := length' (last m) + length' a\<rparr>]
        else m @ [a])"
    by (simp add: addAttribute_def)
next
  show "length (addAttribute m a) = length m \<longleftrightarrow>
        m \<noteq> [] \<and> attributeValue (last m) = attributeValue a
          \<and> offset (last m) + length' (last m) = offset a"
    by (auto simp add: addAttribute_def)
qed

text \<open>
  After a run of value 1 spanning \<open>[0, 5)\<close>: a run of value 1 at offset 7 keeps the touching
  invariant, and a run of value 1 at offset 5 is merged into one run spanning \<open>[0, 7)\<close>.
\<close>

theorem addAttribute_invariant_witness:
  "noTouchingDuplicate [\<lparr>offset = 0, length' = 5, attributeValue = 1\<rparr>]
   \<and> noTouchingDuplicate (addAttribute [\<lparr>offset = 0, length' = 5, attributeValue = 1\<rparr>] \<lparr>offset = 7, length' = 2, attributeValue = 1\<rparr>)
   \<and> noAdjacentDuplicate [\<lparr>offset = 0, length' = 5, attributeValue = 1\<rparr>]
   \<and> noAdjacentDuplicate (addAttribute [\<lparr>offset = 0, length' = 5, attributeValue = 1\<rparr>] \<lparr>offset = 5, length' = 2, attributeValue = 1\<rparr>)
   \<and> addAttribute [\<lparr>offset = 0, length' = 5, attributeValue = 1\<rparr>] \<lparr>offset = 5, length' = 2, attributeValue = 1\<rparr>
       = [\<lparr>offset = 0, length' = 7, attributeValue = 1\<rparr>]"
proof -
  let ?m = "[\<lparr>offset = 0, length' = 5, attributeValue = 1\<rparr>]"
  have t: "noTouchingDuplicate ?m" and d: "noAdjacentDuplicate ?m" by simp_all
  from addAttribute_invariant [of ?m "\<lparr>offset = 7, length' = 2, attributeValue = 1\<rparr>"] t
  have 1: "noTouchingDuplicate (addAttribute ?m \<lparr>offset = 7, length' = 2, attributeValue = 1\<rparr>)"
    by blast
  from addAttribute_invariant [of ?m "\<lparr>offset = 5, length' = 2, attributeValue = 1\<rparr>"] d
  have 2: "noAdjacentDuplicate (addAttribute ?m \<lparr>offset = 5, length' = 2, attributeValue = 1\<rparr>)"
    and 3: "addAttribute ?m \<lparr>offset = 5, length' = 2, attributeValue = 1\<rparr> = [\<lparr>offset = 0, length' = 7, attributeValue = 1\<rparr>]"
    by simp_all
  from t d 1 2 3 show ?thesis by simp
qed

section \<open>Undo records: the flags after undo and redo\<close>

lemma validLine_nat: "validLine d i \<Longrightarrow> nat i < length d"
  by (auto simp add: validLine_def)

lemma marked_flags:
  "m \<or> s \<Longrightarrow> modified (markAsSavedOnDisk s (markAsModified m l)) = (m \<and> \<not> s)"
  "m \<or> s \<Longrightarrow> savedOnDisk (markAsSavedOnDisk s (markAsModified m l)) = s"
  "markAsSavedOnDisk False (markAsModified False l) = l"
  by (auto simp add: markAsModified_def markAsSavedOnDisk_def)

lemma markLine_Some:
  assumes "markLine d i m s = Some d'"
  shows "validLine d i" and "d' = d[nat i := markAsSavedOnDisk s (markAsModified m (d ! nat i))]"
  using assms by (auto simp add: markLine_def plainKateTextLine_def split: if_splits)

lemma markLine_valid:
  "validLine d i \<Longrightarrow>
   markLine d i m s = Some (d[nat i := markAsSavedOnDisk s (markAsModified m (d ! nat i))])"
  by (simp add: markLine_def plainKateTextLine_def)

lemma markLine_flags:
  assumes "markLine d i m s = Some d'"
  shows "m \<or> s \<Longrightarrow> modified (d' ! nat i) = (m \<and> \<not> s)"
    and "m \<or> s \<Longrightarrow> savedOnDisk (d' ! nat i) = s"
    and "length d' = length d" and "validLine d' k = validLine d k"
    and "j \<noteq> nat i \<Longrightarrow> d' ! j = d ! j"
  using markLine_Some [OF assms] validLine_nat [of d i]
  by (simp_all add: marked_flags validLine_def)

lemma markLine_unflagged:
  assumes "markLine d i False False = Some d'"
  shows "d' = d"
  using markLine_Some [OF assms] by (simp add: marked_flags)

lemma markLine_twice:
  assumes 1: "markLine d i m s = Some d1" and 2: "markLine d1 (i + 1) m' s' = Some d2"
  shows "m \<or> s \<Longrightarrow> modified (d2 ! nat i) = (m \<and> \<not> s)"
    and "m \<or> s \<Longrightarrow> savedOnDisk (d2 ! nat i) = s"
    and "m' \<or> s' \<Longrightarrow> modified (d2 ! nat (i + 1)) = (m' \<and> \<not> s')"
    and "m' \<or> s' \<Longrightarrow> savedOnDisk (d2 ! nat (i + 1)) = s'"
    and "d2 ! nat i = d1 ! nat i"
    and "d1 ! nat (i + 1) = d ! nat (i + 1)"
proof -
  from markLine_Some(1) [OF 1] have "0 \<le> i" by (simp add: validLine_def)
  then have ne: "nat i \<noteq> nat (i + 1)" "nat (i + 1) \<noteq> nat i" by simp_all
  from markLine_flags(5) [OF 2 ne(1)] show l1: "d2 ! nat i = d1 ! nat i" .
  from markLine_flags(5) [OF 1 ne(2)] show "d1 ! nat (i + 1) = d ! nat (i + 1)" .
  from l1 markLine_flags(1) [OF 1]
  show "m \<or> s \<Longrightarrow> modified (d2 ! nat i) = (m \<and> \<not> s)" by simp
  from l1 markLine_flags(2) [OF 1]
  show "m \<or> s \<Longrightarrow> savedOnDisk (d2 ! nat i) = s" by simp
  from markLine_flags(1) [OF 2]
  show "m' \<or> s' \<Longrightarrow> modified (d2 ! nat (i + 1)) = (m' \<and> \<not> s')" by simp
  from markLine_flags(2) [OF 2]
  show "m' \<or> s' \<Longrightarrow> savedOnDisk (d2 ! nat (i + 1)) = s'" by simp
qed

lemma undo_line1:
  assumes "undo u d = Some d'" and "kind u \<noteq> InsertLine"
    and "isFlagSet UndoLine1Modified u \<or> isFlagSet UndoLine1Saved u"
  shows "modified (d' ! nat (m_line u)) = (isFlagSet UndoLine1Modified u \<and> \<not> isFlagSet UndoLine1Saved u)
       \<and> savedOnDisk (d' ! nat (m_line u)) = isFlagSet UndoLine1Saved u"
proof (cases "kind u")
  case UnWrapLine
  with assms(1) obtain d1 where
    1: "markLine (KateEditUnWrapLineUndo_undo u d) (m_line u)
          (isFlagSet UndoLine1Modified u) (isFlagSet UndoLine1Saved u) = Some d1"
    and 2: "markLine d1 (m_line u + 1) (isFlagSet UndoLine2Modified u) (isFlagSet UndoLine2Saved u) = Some d'"
    by (auto simp add: undo_def KateModifiedUnWrapLine_undo_def split: option.splits)
  from markLine_twice(1,2) [OF 1 2 assms(3)] show ?thesis by simp
qed (use assms in \<open>auto simp add: undo_def KateModifiedInsertText_undo_def
      KateModifiedRemoveText_undo_def KateModifiedWrapLine_undo_def
      KateModifiedRemoveLine_undo_def dest: markLine_flags(1,2)\<close>)

lemma undo_line2:
  assumes "undo u d = Some d'" and "kind u = UnWrapLine"
    and "isFlagSet UndoLine2Modified u \<or> isFlagSet UndoLine2Saved u"
  shows "modified (d' ! nat (m_line u + 1)) = (isFlagSet UndoLine2Modified u \<and> \<not> isFlagSet UndoLine2Saved u)
       \<and> savedOnDisk (d' ! nat (m_line u + 1)) = isFlagSet UndoLine2Saved u"
proof -
  from assms obtain d1 where
    1: "markLine (KateEditUnWrapLineUndo_undo u d) (m_line u)
          (isFlagSet UndoLine1Modified u) (isFlagSet UndoLine1Saved u) = Some d1"
    and 2: "markLine d1 (m_line u + 1) (isFlagSet UndoLine2Modified u) (isFlagSet UndoLine2Saved u) = Some d'"
    by (auto simp add: undo_def KateModifiedUnWrapLine_undo_def split: option.splits)
  from markLine_twice(3,4) [OF 1 2 assms(3)] show ?thesis by simp
qed

lemma redo_line1:
  assumes "redo u d = Some d'" and "kind u \<noteq> RemoveLine"
    and "isFlagSet RedoLine1Modified u \<or> isFlagSet RedoLine1Saved u"
  shows "modified (d' ! nat (m_line u)) = (isFlagSet RedoLine1Modified u \<and> \<not> isFlagSet RedoLine1Saved u)
       \<and> savedOnDisk (d' ! nat (m_line u)) = isFlagSet RedoLine1Saved u"
proof (cases "kind u")
  case WrapLine
  with assms(1) obtain d1 where
    1: "markLine (KateEditWrapLineUndo_redo u d) (m_line u)
          (isFlagSet RedoLine1Modified u) (isFlagSet RedoLine1Saved u) = Some d1"
    and 2: "markLine d1 (m_line u + 1) (isFlagSet RedoLine2Modified u) (isFlagSet RedoLine2Saved u) = Some d'"
    by (auto simp add: redo_def KateModifiedWrapLine_redo_def split: option.splits)
  from markLine_twice(1,2) [OF 1 2 assms(3)] show ?thesis by simp
qed (use assms in \<open>auto simp add: redo_def KateModifiedInsertText_redo_def
      KateModifiedRemoveText_redo_def KateModifiedUnWrapLine_redo_def
      KateModifiedInsertLine_redo_def dest: markLine_flags(1,2)\<close>)

lemma redo_line2:
  assumes "redo u d = Some d'" and "kind u = WrapLine"
    and "isFlagSet RedoLine2Modified u \<or> isFlagSet RedoLine2Saved u"
  shows "modified (d' ! nat (m_line u + 1)) = (isFlagSet RedoLine2Modified u \<and> \<not> isFlagSet RedoLine2Saved u)
       \<and> savedOnDisk (d' ! nat (m_line u + 1)) = isFlagSet RedoLine2Saved u"
proof -
  from assms obtain d1 where
    1: "markLine (KateEditWrapLineUndo_redo u d) (m_line u)
          (isFlagSet RedoLine1Modified u) (isFlagSet RedoLine1Saved u) = Some d1"
    and 2: "markLine d1 (m_line u + 1) (isFlagSet RedoLine2Modified u) (isFlagSet RedoLine2Saved u) = Some d'"
    by (auto simp add: redo_def KateModifiedWrapLine_redo_def split: option.splits)
  from markLine_twice(3,4) [OF 1 2 assms(3)] show ?thesis by simp
qed

lemma undo_unflagged1:
  assumes "undo u d = Some d'" and "kind u \<noteq> InsertLine"
    and "\<not> isFlagSet UndoLine1Modified u" and "\<not> isFlagSet UndoLine1Saved u"
  shows "d' ! nat (m_line u) = textUndo u d ! nat (m_line u)"
proof (cases "kind u")
  case UnWrapLine
  with assms(1) obtain d1 where
    1: "markLine (KateEditUnWrapLineUndo_undo u d) (m_line u)
          (isFlagSet UndoLine1Modified u) (isFlagSet UndoLine1Saved u) = Some d1"
    and 2: "markLine d1 (m_line u + 1) (isFlagSet UndoLine2Modified u) (isFlagSet UndoLine2Saved u) = Some d'"
    by (auto simp add: undo_def KateModifiedUnWrapLine_undo_def split: option.splits)
  from 1 assms(3,4) have "d1 = KateEditUnWrapLineUndo_undo u d"
    by (simp add: markLine_unflagged)
  with markLine_twice(5) [OF 1 2] UnWrapLine show ?thesis by (simp add: textUndo_def)
qed (use assms in \<open>auto simp add: undo_def textUndo_def KateModifiedInsertText_undo_def
      KateModifiedRemoveText_undo_def KateModifiedWrapLine_undo_def
      KateModifiedRemoveLine_undo_def dest: markLine_unflagged\<close>)

lemma undo_unflagged2:
  assumes "undo u d = Some d'" and "kind u = UnWrapLine"
    and "\<not> isFlagSet UndoLine2Modified u" and "\<not> isFlagSet UndoLine2Saved u"
  shows "d' ! nat (m_line u + 1) = textUndo u d ! nat (m_line u + 1)"
proof -
  from assms(1,2) obtain d1 where
    1: "markLine (KateEditUnWrapLineUndo_undo u d) (m_line u)
          (isFlagSet UndoLine1Modified u) (isFlagSet UndoLine1Saved u) = Some d1"
    and 2: "markLine d1 (m_line u + 1) (isFlagSet UndoLine2Modified u) (isFlagSet UndoLine2Saved u) = Some d'"
    by (auto simp add: undo_def KateModifiedUnWrapLine_undo_def split: option.splits)
  from 2 assms(3,4) have "d' = d1" by (simp add: markLine_unflagged)
  with markLine_twice(6) [OF 1 2] assms(2) show ?thesis by (simp add: textUndo_def)
qed

lemma redo_unflagged1:
  assumes "redo u d = Some d'" and "kind u \<noteq> RemoveLine"
    and "\<not> isFlagSet RedoLine1Modified u" and "\<not> isFlagSet RedoLine1Saved u"
  shows "d' ! nat (m_line u) = textRedo u d ! nat (m_line u)"
proof (cases "kind u")
  case WrapLine
  with assms(1) obtain d1 where
    1: "markLine (KateEditWrapLineUndo_redo u d) (m_line u)
          (isFlagSet RedoLine1Modified u) (isFlagSet RedoLine1Saved u) = Some d1"
    and 2: "markLine d1 (m_line u + 1) (isFlagSet RedoLine2Modified u) (isFlagSet RedoLine2Saved u) = Some d'"
    by (auto simp add: redo_def KateModifiedWrapLine_redo_def split: option.splits)
  from 1 assms(3,4) have "d1 = KateEditWrapLineUndo_redo u d"
    by (simp add: markLine_unflagged)
  with markLine_twice(5) [OF 1 2] WrapLine show ?thesis by (simp add: textRedo_def)
qed (use assms in \<open>auto simp add: redo_def textRedo_def KateModifiedInsertText_redo_def
      KateModifiedRemoveText_redo_def KateModifiedUnWrapLine_redo_def
      KateModifiedInsertLine_redo_def dest: markLine_unflagged\<close>)

lemma redo_unflagged2:
  assumes "redo u d = Some d'" and "kind u = WrapLine"
    and "\<not> isFlagSet RedoLine2Modified u" and "\<not> isFlagSet RedoLine2Saved u"
  shows "d' ! nat (m_line u + 1) = textRedo u d ! nat (m_line u + 1)"
proof -
  from assms(1,2) obtain d1 where
    1: "markLine (KateEditWrapLineUndo_redo u d) (m_line u)
          (isFlagSet RedoLine1Modified u) (isFlagSet RedoLine1Saved u) = Some d1"
    and 2: "markLine d1 (m_line u + 1) (isFlagSet RedoLine2Modified u) (isFlagSet RedoLine2Saved u) = Some d'"
    by (auto simp add: redo_def KateModifiedWrapLine_redo_def split: option.splits)
  from 2 assms(3,4) have "d' = d1" by (simp add: markLine_unflagged)
  with markLine_twice(6) [OF 1 2] assms(2) show ?thesis by (simp add: textRedo_def)
qed

lemma edit_keeps:
  "modified (editInsertText d i col s ! nat i) = modified (d ! nat i)"
  "savedOnDisk (editInsertText d i col s ! nat i) = savedOnDisk (d ! nat i)"
  "modified (editRemoveText d i col len ! nat i) = modified (d ! nat i)"
  "savedOnDisk (editRemoveText d i col len ! nat i) = savedOnDisk (d ! nat i)"
  "modified (editWrapLine d i col newLine ! nat i) = modified (d ! nat i)"
  "savedOnDisk (editWrapLine d i col newLine ! nat i) = savedOnDisk (d ! nat i)"
  "modified (editUnWrapLine d i removeLine len ! nat i) = modified (d ! nat i)"
  "savedOnDisk (editUnWrapLine d i removeLine len ! nat i) = savedOnDisk (d ! nat i)"
  by (auto simp add: editInsertText_def editRemoveText_def editWrapLine_def editUnWrapLine_def
      validLine_def Let_def nth_append nth_list_update)

lemma textUndo_keeps:
  assumes "kind u \<noteq> InsertLine" and "kind u \<noteq> RemoveLine"
  shows "modified (textUndo u d ! nat (m_line u)) = modified (d ! nat (m_line u))"
    and "savedOnDisk (textUndo u d ! nat (m_line u)) = savedOnDisk (d ! nat (m_line u))"
  using assms
  by (cases "kind u"; simp add: textUndo_def edit_keeps KateEditInsertTextUndo_undo_def
      KateEditRemoveTextUndo_undo_def KateEditWrapLineUndo_undo_def
      KateEditUnWrapLineUndo_undo_def)+

lemma textRedo_keeps:
  assumes "kind u \<noteq> InsertLine" and "kind u \<noteq> RemoveLine"
  shows "modified (textRedo u d ! nat (m_line u)) = modified (d ! nat (m_line u))"
    and "savedOnDisk (textRedo u d ! nat (m_line u)) = savedOnDisk (d ! nat (m_line u))"
  using assms
  by (cases "kind u"; simp add: textRedo_def edit_keeps KateEditInsertTextUndo_redo_def
      KateEditRemoveTextUndo_redo_def KateEditWrapLineUndo_redo_def
      KateEditUnWrapLineUndo_redo_def)+

lemma markLine_both:
  assumes "validLine d i" and "validLine d (i + 1)"
  shows "\<exists>d1 d2. markLine d i m s = Some d1 \<and> markLine d1 (i + 1) m' s' = Some d2"
proof -
  from markLine_valid [OF assms(1)] obtain d1 where 1: "markLine d i m s = Some d1" by blast
  from markLine_flags(4) [OF 1] assms(2) have "validLine d1 (i + 1)" by simp
  from markLine_valid [OF this] 1 show ?thesis by blast
qed

lemma undo_returns:
  assumes "kind u = InsertLine \<or> validLine (textUndo u d) (m_line u)"
    and "kind u = UnWrapLine \<longrightarrow> validLine (textUndo u d) (m_line u + 1)"
  shows "\<exists>d1. undo u d = Some d1"
proof (cases "kind u")
  case UnWrapLine
  with assms have "validLine (KateEditUnWrapLineUndo_undo u d) (m_line u)"
    and "validLine (KateEditUnWrapLineUndo_undo u d) (m_line u + 1)"
    by (simp_all add: textUndo_def)
  from markLine_both [OF this, of "isFlagSet UndoLine1Modified u" "isFlagSet UndoLine1Saved u"
      "isFlagSet UndoLine2Modified u" "isFlagSet UndoLine2Saved u"]
  obtain d1 d2 where "markLine (KateEditUnWrapLineUndo_undo u d) (m_line u)
        (isFlagSet UndoLine1Modified u) (isFlagSet UndoLine1Saved u) = Some d1"
    and "markLine d1 (m_line u + 1) (isFlagSet UndoLine2Modified u) (isFlagSet UndoLine2Saved u)
        = Some d2" by blast
  with UnWrapLine show ?thesis
    by (simp add: undo_def KateModifiedUnWrapLine_undo_def)
qed (use assms in \<open>auto simp add: undo_def textUndo_def KateModifiedInsertText_undo_def
      KateModifiedRemoveText_undo_def KateModifiedWrapLine_undo_def
      KateModifiedInsertLine_undo_def KateModifiedRemoveLine_undo_def markLine_valid\<close>)

lemma redo_returns:
  assumes "kind u = RemoveLine \<or> validLine (textRedo u d) (m_line u)"
    and "kind u = WrapLine \<longrightarrow> validLine (textRedo u d) (m_line u + 1)"
  shows "\<exists>d1. redo u d = Some d1"
proof (cases "kind u")
  case WrapLine
  with assms have "validLine (KateEditWrapLineUndo_redo u d) (m_line u)"
    and "validLine (KateEditWrapLineUndo_redo u d) (m_line u + 1)"
    by (simp_all add: textRedo_def)
  from markLine_both [OF this, of "isFlagSet RedoLine1Modified u" "isFlagSet RedoLine1Saved u"
      "isFlagSet RedoLine2Modified u" "isFlagSet RedoLine2Saved u"]
  obtain d1 d2 where "markLine (KateEditWrapLineUndo_redo u d) (m_line u)
        (isFlagSet RedoLine1Modified u) (isFlagSet RedoLine1Saved u) = Some d1"
    and "markLine d1 (m_line u + 1) (isFlagSet RedoLine2Modified u) (isFlagSet RedoLine2Saved u)
        = Some d2" by blast
  with WrapLine show ?thesis
    by (simp add: redo_def KateModifiedWrapLine_redo_def)
qed (use assms in \<open>auto simp add: redo_def textRedo_def KateModifiedInsertText_redo_def
      KateModifiedRemoveText_redo_def KateModifiedUnWrapLine_redo_def
      KateModifiedInsertLine_redo_def KateModifiedRemoveLine_redo_def markLine_valid\<close>)

lemma editInsertText_valid: "validLine (editInsertText d line col s) j = validLine d j"
  by (simp add: editInsertText_def validLine_def Let_def)

lemma editRemoveText_valid: "validLine (editRemoveText d line col len) j = validLine d j"
  by (simp add: editRemoveText_def validLine_def Let_def)

lemma editWrapLine_valid:
  assumes "validLine d line" and "0 \<le> col"
  shows "validLine (editWrapLine d line col newLine) line"
    and "validLine (editWrapLine d line col newLine) (line + 1)"
  using assms by (auto simp add: editWrapLine_def validLine_def Let_def)

lemma editUnWrapLine_valid:
  assumes "validLine d line"
  shows "validLine (editUnWrapLine d line removeLine len) line"
  using assms by (auto simp add: editUnWrapLine_def validLine_def Let_def)


text \<open>
  C2: every InsertText and every RemoveText record constructed on a line of the document
  has \<open>RedoLine1Modified\<close> set, and \<open>UndoLine1Modified\<close> set if the line was marked
  modified at construction time, else \<open>UndoLine1Saved\<close>; these two are all its flags. The
  constructor returns a record whenever the line exists.
\<close>

theorem textEdit_flags:
  assumes "plainKateTextLine document line = Some textLine"
  shows "(\<exists>u. KateModifiedInsertText document line col s = Some u
            \<and> isFlagSet RedoLine1Modified u
            \<and> (if markedAsModified textLine then isFlagSet UndoLine1Modified u
                else isFlagSet UndoLine1Saved u)
            \<and> m_lineModFlags u =
                {RedoLine1Modified,
                 if markedAsModified textLine then UndoLine1Modified else UndoLine1Saved})
       \<and> (\<exists>u. KateModifiedRemoveText document line col s = Some u
            \<and> isFlagSet RedoLine1Modified u
            \<and> (if markedAsModified textLine then isFlagSet UndoLine1Modified u
                else isFlagSet UndoLine1Saved u)
            \<and> m_lineModFlags u =
                {RedoLine1Modified,
                 if markedAsModified textLine then UndoLine1Modified else UndoLine1Saved})"
  using assms
  by (auto simp add: KateModifiedInsertText_def KateModifiedRemoveText_def
      KateEditInsertTextUndo_def KateEditRemoveTextUndo_def setFlag_def isFlagSet_def)

text \<open>A saved, unmodified line: both records carry \<open>RedoLine1Modified\<close> and \<open>UndoLine1Saved\<close>.\<close>

theorem textEdit_flags_witness:
  "plainKateTextLine [\<lparr>m_text = ''abc'', modified = False, savedOnDisk = True\<rparr>] 0
     = Some \<lparr>m_text = ''abc'', modified = False, savedOnDisk = True\<rparr>
   \<and> (\<exists>u. KateModifiedInsertText [\<lparr>m_text = ''abc'', modified = False, savedOnDisk = True\<rparr>] 0 1 ''x'' = Some u
        \<and> m_lineModFlags u = {RedoLine1Modified, UndoLine1Saved})
   \<and> (\<exists>u. KateModifiedRemoveText [\<lparr>m_text = ''abc'', modified = False, savedOnDisk = True\<rparr>] 0 1 ''b'' = Some u
        \<and> m_lineModFlags u = {RedoLine1Modified, UndoLine1Saved})"
proof -
  let ?l = "\<lparr>m_text = ''abc'', modified = False, savedOnDisk = True\<rparr>"
  have h: "plainKateTextLine [?l] 0 = Some ?l"
    by (simp add: plainKateTextLine_def validLine_def)
  have m: "\<not> markedAsModified ?l" by (simp add: markedAsModified_def)
  from textEdit_flags [OF h, of 1 "''x''"] m
  have 1: "\<exists>u. KateModifiedInsertText [?l] 0 1 ''x'' = Some u
        \<and> m_lineModFlags u = {RedoLine1Modified, UndoLine1Saved}"
    by auto
  from textEdit_flags [OF h, of 1 "''b''"] m
  have 2: "\<exists>u. KateModifiedRemoveText [?l] 0 1 ''b'' = Some u
        \<and> m_lineModFlags u = {RedoLine1Modified, UndoLine1Saved}"
    by auto
  from h 1 2 show ?thesis by blast
qed

text \<open>
  C7: construct an InsertText record on a line whose modified flag is false. Then
  \<open>undo\<close>, on any document that has the line, returns and leaves the line with
  \<open>savedOnDisk\<close> true and \<open>modified\<close> false, and the subsequent \<open>redo\<close> returns and
  leaves it with \<open>modified\<close> true and \<open>savedOnDisk\<close> false.
\<close>

theorem insertText_roundTrip:
  assumes l: "plainKateTextLine document line = Some textLine"
    and clean: "\<not> markedAsModified textLine"
    and d: "validLine d line"
  shows "\<exists>u d1 d2. KateModifiedInsertText document line col s = Some u
          \<and> undo u d = Some d1
          \<and> savedOnDisk (d1 ! nat line) \<and> \<not> modified (d1 ! nat line)
          \<and> redo u d1 = Some d2
          \<and> modified (d2 ! nat line) \<and> \<not> savedOnDisk (d2 ! nat line)"
proof -
  define u where "u = setFlag UndoLine1Saved (setFlag RedoLine1Modified (KateEditInsertTextUndo line col s))"
  have c: "KateModifiedInsertText document line col s = Some u"
    using l clean by (simp add: KateModifiedInsertText_def u_def)
  have k: "kind u = InsertText" "m_line u = line"
    and f: "isFlagSet RedoLine1Modified u" "\<not> isFlagSet RedoLine1Saved u"
      "isFlagSet UndoLine1Saved u" "\<not> isFlagSet UndoLine1Modified u"
    by (simp_all add: u_def setFlag_def isFlagSet_def KateEditInsertTextUndo_def)
  define d1 where "d1 = the (undo u d)"
  have "validLine (KateEditInsertTextUndo_undo u d) line"
    using d by (simp add: KateEditInsertTextUndo_undo_def editRemoveText_valid)
  then have u1: "undo u d = Some d1"
    using k by (simp add: undo_def KateModifiedInsertText_undo_def markLine_valid d1_def)
  from undo_line1 [OF u1] k f
  have f1: "savedOnDisk (d1 ! nat line)" "\<not> modified (d1 ! nat line)" by simp_all
  have v1: "validLine d1 line"
    using u1 k markLine_flags(4) [of _ line _ _ d1 line] \<open>validLine (KateEditInsertTextUndo_undo u d) line\<close>
    by (simp add: undo_def KateModifiedInsertText_undo_def)
  define d2 where "d2 = the (redo u d1)"
  have "validLine (KateEditInsertTextUndo_redo u d1) line"
    using v1 by (simp add: KateEditInsertTextUndo_redo_def editInsertText_valid)
  then have r2: "redo u d1 = Some d2"
    using k by (simp add: redo_def KateModifiedInsertText_redo_def markLine_valid d2_def)
  from redo_line1 [OF r2] k f
  have f2: "modified (d2 ! nat line)" "\<not> savedOnDisk (d2 ! nat line)" by simp_all
  from c u1 f1 r2 f2 show ?thesis by blast
qed


text \<open>The clean line \<open>abc\<close>, with \<open>x\<close> inserted at column 1.\<close>

theorem insertText_roundTrip_witness:
  "plainKateTextLine [\<lparr>m_text = ''abc'', modified = False, savedOnDisk = False\<rparr>] 0
     = Some \<lparr>m_text = ''abc'', modified = False, savedOnDisk = False\<rparr>
   \<and> \<not> markedAsModified \<lparr>m_text = ''abc'', modified = False, savedOnDisk = False\<rparr>
   \<and> validLine [\<lparr>m_text = ''axbc'', modified = False, savedOnDisk = False\<rparr>] 0
   \<and> (\<exists>u d1 d2.
        KateModifiedInsertText [\<lparr>m_text = ''abc'', modified = False, savedOnDisk = False\<rparr>] 0 1 ''x'' = Some u
        \<and> undo u [\<lparr>m_text = ''axbc'', modified = False, savedOnDisk = False\<rparr>] = Some d1
        \<and> savedOnDisk (d1 ! nat 0) \<and> \<not> modified (d1 ! nat 0)
        \<and> redo u d1 = Some d2
        \<and> modified (d2 ! nat 0) \<and> \<not> savedOnDisk (d2 ! nat 0))"
proof -
  let ?l = "\<lparr>m_text = ''abc'', modified = False, savedOnDisk = False\<rparr>"
  let ?d = "[\<lparr>m_text = ''axbc'', modified = False, savedOnDisk = False\<rparr>]"
  have h: "plainKateTextLine [?l] 0 = Some ?l"
    by (simp add: plainKateTextLine_def validLine_def)
  have m: "\<not> markedAsModified ?l" by (simp add: markedAsModified_def)
  have v: "validLine ?d 0" by (simp add: validLine_def)
  from h m v insertText_roundTrip [OF h m v, of 1 "''x''"] show ?thesis by blast
qed

text \<open>
  C3, amended: a WrapLine record constructed with \<open>col > 0\<close> and \<open>len > 0\<close> on a line
  of the document. Every \<open>redo\<close> that returns leaves both resulting lines modified and not
  savedOnDisk. Every \<open>undo\<close> that returns leaves the line modified if it was modified
  before the split and savedOnDisk otherwise: these are the pre-split flags exactly when
  the line was Modified or SavedOnDisk (exactly one flag set), while a line that was
  neither comes back savedOnDisk. On a document that has the line, \<open>redo\<close> and the
  \<open>undo\<close> after it both return.
\<close>

theorem wrapLine_bothHalves:
  assumes l: "plainKateTextLine document line = Some textLine"
    and col: "0 < col" and len: "0 < len"
  shows "\<exists>u. KateModifiedWrapLine document line col len newLine = Some u
       \<and> (\<forall>d d'. redo u d = Some d' \<longrightarrow>
             modified (d' ! nat line) \<and> \<not> savedOnDisk (d' ! nat line)
             \<and> modified (d' ! nat (line + 1)) \<and> \<not> savedOnDisk (d' ! nat (line + 1)))
       \<and> (\<forall>d d'. undo u d = Some d' \<longrightarrow>
             modified (d' ! nat line) = markedAsModified textLine
             \<and> savedOnDisk (d' ! nat line) = (\<not> markedAsModified textLine))
       \<and> (markedAsModified textLine \<noteq> markedAsSavedOnDisk textLine \<longrightarrow>
            (\<forall>d d'. undo u d = Some d' \<longrightarrow>
               modified (d' ! nat line) = modified textLine
               \<and> savedOnDisk (d' ! nat line) = savedOnDisk textLine))
       \<and> (\<forall>d. validLine d line \<longrightarrow> (\<exists>d1 d2. redo u d = Some d1 \<and> undo u d1 = Some d2))"
proof -
  define u where "u = the (KateModifiedWrapLine document line col len newLine)"
  have c: "KateModifiedWrapLine document line col len newLine = Some u"
    using l by (simp add: KateModifiedWrapLine_def u_def Let_def)
  have k: "kind u = WrapLine" "m_line u = line" "m_col u = col" "m_len u = len"
    using l col len
    by (simp_all add: u_def KateModifiedWrapLine_def Let_def setFlag_def KateEditWrapLineUndo_def)
  have f: "isFlagSet RedoLine1Modified u" "\<not> isFlagSet RedoLine1Saved u"
      "isFlagSet RedoLine2Modified u" "\<not> isFlagSet RedoLine2Saved u"
      "isFlagSet UndoLine1Modified u = markedAsModified textLine"
      "isFlagSet UndoLine1Saved u = (\<not> markedAsModified textLine)"
    using l col len
    by (simp_all add: u_def KateModifiedWrapLine_def Let_def setFlag_def isFlagSet_def
        KateEditWrapLineUndo_def)
  have r: "modified (d' ! nat line) \<and> \<not> savedOnDisk (d' ! nat line)
      \<and> modified (d' ! nat (line + 1)) \<and> \<not> savedOnDisk (d' ! nat (line + 1))"
    if "redo u d = Some d'" for d d'
    using redo_line1 [OF that] redo_line2 [OF that] k f by simp
  have un: "modified (d' ! nat line) = markedAsModified textLine
      \<and> savedOnDisk (d' ! nat line) = (\<not> markedAsModified textLine)"
    if "undo u d = Some d'" for d d'
    using undo_line1 [OF that] k f by auto
  have un': "modified (d' ! nat line) = modified textLine
      \<and> savedOnDisk (d' ! nat line) = savedOnDisk textLine"
    if "undo u d = Some d'" "markedAsModified textLine \<noteq> markedAsSavedOnDisk textLine" for d d'
    using un [OF that(1)] that(2) by (auto simp add: markedAsModified_def markedAsSavedOnDisk_def)
  have tot: "\<exists>d1 d2. redo u d = Some d1 \<and> undo u d1 = Some d2" if v: "validLine d line" for d
  proof -
    let ?w = "KateEditWrapLineUndo_redo u d"
    from v col k have w: "validLine ?w line" "validLine ?w (line + 1)"
      by (simp_all add: KateEditWrapLineUndo_redo_def editWrapLine_valid)
    let ?a = "?w[nat line := markAsSavedOnDisk (isFlagSet RedoLine1Saved u)
                (markAsModified (isFlagSet RedoLine1Modified u) (?w ! nat line))]"
    have a: "markLine ?w line (isFlagSet RedoLine1Modified u) (isFlagSet RedoLine1Saved u) = Some ?a"
      using w(1) by (rule markLine_valid)
    from w(2) have "validLine ?a (line + 1)" by (simp add: validLine_def)
    from markLine_valid [OF this] a obtain d1 where d1: "redo u d = Some d1"
      using k by (simp add: redo_def KateModifiedWrapLine_redo_def)
    have "validLine d1 line"
    proof -
      from d1 k obtain x where "markLine x (line + 1) (isFlagSet RedoLine2Modified u) (isFlagSet RedoLine2Saved u) = Some d1"
        and "validLine x line"
        using a w(1) by (auto simp add: redo_def KateModifiedWrapLine_redo_def validLine_def)
      then show ?thesis using markLine_flags(4) by blast
    qed
    then have "validLine (KateEditWrapLineUndo_undo u d1) line"
      by (simp add: KateEditWrapLineUndo_undo_def editUnWrapLine_valid k)
    from markLine_valid [OF this] obtain d2 where "undo u d1 = Some d2"
      using k by (simp add: undo_def KateModifiedWrapLine_undo_def)
    with d1 show ?thesis by blast
  qed
  from c r un un' tot show ?thesis by blast
qed


text \<open>The saved line \<open>hello\<close> split at column 3: both halves modified, and saved again after undo.\<close>

theorem wrapLine_bothHalves_witness:
  "plainKateTextLine [\<lparr>m_text = ''hello'', modified = False, savedOnDisk = True\<rparr>] 0
     = Some \<lparr>m_text = ''hello'', modified = False, savedOnDisk = True\<rparr>
   \<and> (0::int) < 3 \<and> (0::int) < 2
   \<and> (\<exists>u d1 d2.
        KateModifiedWrapLine [\<lparr>m_text = ''hello'', modified = False, savedOnDisk = True\<rparr>] 0 3 2 True = Some u
        \<and> redo u [\<lparr>m_text = ''hello'', modified = False, savedOnDisk = True\<rparr>] = Some d1
        \<and> modified (d1 ! nat 0) \<and> modified (d1 ! nat (0 + 1))
        \<and> undo u d1 = Some d2
        \<and> modified (d2 ! nat 0) = False \<and> savedOnDisk (d2 ! nat 0) = True)"
proof -
  let ?l = "\<lparr>m_text = ''hello'', modified = False, savedOnDisk = True\<rparr>"
  have h: "plainKateTextLine [?l] 0 = Some ?l"
    by (simp add: plainKateTextLine_def validLine_def)
  have c: "(0::int) < 3" and n: "(0::int) < 2" by simp_all
  have v: "validLine [?l] 0" by (simp add: validLine_def)
  have x: "markedAsModified ?l \<noteq> markedAsSavedOnDisk ?l"
    by (simp add: markedAsModified_def markedAsSavedOnDisk_def)
  from wrapLine_bothHalves [OF h c n, of True] obtain u where
    u: "KateModifiedWrapLine [?l] 0 3 2 True = Some u"
    and r: "\<And>d d'. redo u d = Some d' \<Longrightarrow> modified (d' ! nat 0) \<and> modified (d' ! nat (0 + 1))"
    and un: "\<And>d d'. undo u d = Some d' \<Longrightarrow>
               modified (d' ! nat 0) = modified ?l \<and> savedOnDisk (d' ! nat 0) = savedOnDisk ?l"
    and t: "\<exists>d1 d2. redo u [?l] = Some d1 \<and> undo u d1 = Some d2"
    using x v by blast
  from t obtain d1 d2 where d: "redo u [?l] = Some d1" "undo u d1 = Some d2" by blast
  from r [OF d(1)] un [OF d(2)] u d h c n show ?thesis by auto
qed

text \<open>
  C3 as stated fails for a line with neither flag set: \<open>hello\<close>, clean, split at column 3
  with 2 characters moved. The record carries \<open>UndoLine1Saved\<close>, and after \<open>redo\<close> and
  \<open>undo\<close> the line is savedOnDisk, which it was not before the split.
\<close>

theorem wrapLine_cleanLine_counterexample:
  "KateModifiedWrapLine [\<lparr>m_text = ''hello'', modified = False, savedOnDisk = False\<rparr>] 0 3 2 True
     = Some \<lparr>kind = WrapLine, m_line = 0, m_col = 3, m_string = [], m_len = 2, m_newLine = True,
             m_lineModFlags = {UndoLine1Saved, RedoLine2Modified, RedoLine1Modified}\<rparr>
   \<and> redo \<lparr>kind = WrapLine, m_line = 0, m_col = 3, m_string = [], m_len = 2, m_newLine = True,
             m_lineModFlags = {UndoLine1Saved, RedoLine2Modified, RedoLine1Modified}\<rparr>
          [\<lparr>m_text = ''hello'', modified = False, savedOnDisk = False\<rparr>]
     = Some [\<lparr>m_text = ''hel'', modified = True, savedOnDisk = False\<rparr>,
             \<lparr>m_text = ''lo'', modified = True, savedOnDisk = False\<rparr>]
   \<and> undo \<lparr>kind = WrapLine, m_line = 0, m_col = 3, m_string = [], m_len = 2, m_newLine = True,
             m_lineModFlags = {UndoLine1Saved, RedoLine2Modified, RedoLine1Modified}\<rparr>
          [\<lparr>m_text = ''hel'', modified = True, savedOnDisk = False\<rparr>,
           \<lparr>m_text = ''lo'', modified = True, savedOnDisk = False\<rparr>]
     = Some [\<lparr>m_text = ''hello'', modified = False, savedOnDisk = True\<rparr>]
   \<and> savedOnDisk ([\<lparr>m_text = ''hello'', modified = False, savedOnDisk = True\<rparr>] ! 0)
       \<noteq> savedOnDisk ([\<lparr>m_text = ''hello'', modified = False, savedOnDisk = False\<rparr>] ! 0)"
  by (simp add: KateModifiedWrapLine_def KateEditWrapLineUndo_def plainKateTextLine_def
      validLine_def markedAsModified_def markedAsSavedOnDisk_def setFlag_def isFlagSet_def
      redo_def undo_def KateModifiedWrapLine_redo_def KateModifiedWrapLine_undo_def
      KateEditWrapLineUndo_redo_def KateEditWrapLineUndo_undo_def editWrapLine_def
      editUnWrapLine_def markLine_def markAsModified_def markAsSavedOnDisk_def Let_def
      insert_commute)

text \<open>
  C1: for every record and every line slot that its \<open>undo\<close> (respectively \<open>redo\<close>)
  marks, if neither the Modified nor the Saved flag of that slot is set for the direction,
  the call leaves that line as the text mutation alone leaves it; for the first line of a
  text or wrap record, which exists before the call, the line's \<open>modified\<close> and
  \<open>savedOnDisk\<close> flags are exactly as they were before the call. \<open>undo\<close> marks line 1
  for every kind but InsertLine and line 2 for UnWrapLine; \<open>redo\<close> marks line 1 for every
  kind but RemoveLine and line 2 for WrapLine. The calls return whenever the lines they
  mark exist after the text mutation.
\<close>

theorem unflagged_slot_unchanged:
  "(undo u d = Some d' \<and> kind u \<noteq> InsertLine
      \<and> \<not> isFlagSet UndoLine1Modified u \<and> \<not> isFlagSet UndoLine1Saved u
     \<longrightarrow> d' ! nat (m_line u) = textUndo u d ! nat (m_line u))
   \<and> (undo u d = Some d' \<and> kind u = UnWrapLine
      \<and> \<not> isFlagSet UndoLine2Modified u \<and> \<not> isFlagSet UndoLine2Saved u
     \<longrightarrow> d' ! nat (m_line u + 1) = textUndo u d ! nat (m_line u + 1))
   \<and> (redo u d = Some d' \<and> kind u \<noteq> RemoveLine
      \<and> \<not> isFlagSet RedoLine1Modified u \<and> \<not> isFlagSet RedoLine1Saved u
     \<longrightarrow> d' ! nat (m_line u) = textRedo u d ! nat (m_line u))
   \<and> (redo u d = Some d' \<and> kind u = WrapLine
      \<and> \<not> isFlagSet RedoLine2Modified u \<and> \<not> isFlagSet RedoLine2Saved u
     \<longrightarrow> d' ! nat (m_line u + 1) = textRedo u d ! nat (m_line u + 1))
   \<and> (undo u d = Some d' \<and> kind u \<noteq> InsertLine \<and> kind u \<noteq> RemoveLine
      \<and> \<not> isFlagSet UndoLine1Modified u \<and> \<not> isFlagSet UndoLine1Saved u
     \<longrightarrow> modified (d' ! nat (m_line u)) = modified (d ! nat (m_line u))
         \<and> savedOnDisk (d' ! nat (m_line u)) = savedOnDisk (d ! nat (m_line u)))
   \<and> (redo u d = Some d' \<and> kind u \<noteq> InsertLine \<and> kind u \<noteq> RemoveLine
      \<and> \<not> isFlagSet RedoLine1Modified u \<and> \<not> isFlagSet RedoLine1Saved u
     \<longrightarrow> modified (d' ! nat (m_line u)) = modified (d ! nat (m_line u))
         \<and> savedOnDisk (d' ! nat (m_line u)) = savedOnDisk (d ! nat (m_line u)))
   \<and> ((kind u = InsertLine \<or> validLine (textUndo u d) (m_line u))
      \<and> (kind u = UnWrapLine \<longrightarrow> validLine (textUndo u d) (m_line u + 1))
     \<longrightarrow> (\<exists>d1. undo u d = Some d1))
   \<and> ((kind u = RemoveLine \<or> validLine (textRedo u d) (m_line u))
      \<and> (kind u = WrapLine \<longrightarrow> validLine (textRedo u d) (m_line u + 1))
     \<longrightarrow> (\<exists>d1. redo u d = Some d1))"
proof (intro conjI impI)
  assume a: "undo u d = Some d' \<and> kind u \<noteq> InsertLine
      \<and> \<not> isFlagSet UndoLine1Modified u \<and> \<not> isFlagSet UndoLine1Saved u"
  then show "d' ! nat (m_line u) = textUndo u d ! nat (m_line u)"
    by (intro undo_unflagged1) simp_all
next
  assume a: "undo u d = Some d' \<and> kind u = UnWrapLine
      \<and> \<not> isFlagSet UndoLine2Modified u \<and> \<not> isFlagSet UndoLine2Saved u"
  then show "d' ! nat (m_line u + 1) = textUndo u d ! nat (m_line u + 1)"
    by (intro undo_unflagged2) simp_all
next
  assume a: "redo u d = Some d' \<and> kind u \<noteq> RemoveLine
      \<and> \<not> isFlagSet RedoLine1Modified u \<and> \<not> isFlagSet RedoLine1Saved u"
  then show "d' ! nat (m_line u) = textRedo u d ! nat (m_line u)"
    by (intro redo_unflagged1) simp_all
next
  assume a: "redo u d = Some d' \<and> kind u = WrapLine
      \<and> \<not> isFlagSet RedoLine2Modified u \<and> \<not> isFlagSet RedoLine2Saved u"
  then show "d' ! nat (m_line u + 1) = textRedo u d ! nat (m_line u + 1)"
    by (intro redo_unflagged2) simp_all
next
  assume a: "undo u d = Some d' \<and> kind u \<noteq> InsertLine \<and> kind u \<noteq> RemoveLine
      \<and> \<not> isFlagSet UndoLine1Modified u \<and> \<not> isFlagSet UndoLine1Saved u"
  then have "d' ! nat (m_line u) = textUndo u d ! nat (m_line u)"
    by (intro undo_unflagged1) simp_all
  with a textUndo_keeps [of u d]
  show "modified (d' ! nat (m_line u)) = modified (d ! nat (m_line u))"
    and "savedOnDisk (d' ! nat (m_line u)) = savedOnDisk (d ! nat (m_line u))"
    by simp_all
next
  assume a: "redo u d = Some d' \<and> kind u \<noteq> InsertLine \<and> kind u \<noteq> RemoveLine
      \<and> \<not> isFlagSet RedoLine1Modified u \<and> \<not> isFlagSet RedoLine1Saved u"
  then have "d' ! nat (m_line u) = textRedo u d ! nat (m_line u)"
    by (intro redo_unflagged1) simp_all
  with a textRedo_keeps [of u d]
  show "modified (d' ! nat (m_line u)) = modified (d ! nat (m_line u))"
    and "savedOnDisk (d' ! nat (m_line u)) = savedOnDisk (d ! nat (m_line u))"
    by simp_all
next
  assume "(kind u = InsertLine \<or> validLine (textUndo u d) (m_line u))
      \<and> (kind u = UnWrapLine \<longrightarrow> validLine (textUndo u d) (m_line u + 1))"
  then show "\<exists>d1. undo u d = Some d1" by (intro undo_returns) simp_all
next
  assume "(kind u = RemoveLine \<or> validLine (textRedo u d) (m_line u))
      \<and> (kind u = WrapLine \<longrightarrow> validLine (textRedo u d) (m_line u + 1))"
  then show "\<exists>d1. redo u d = Some d1" by (intro redo_returns) simp_all
qed

text \<open>
  The clean line \<open>abc\<close> wrapped at column 0 gives a WrapLine record whose undo-line-1 pair
  is empty. Undone on the document that \<open>redo\<close> left, whose first line is modified, it
  merges the two lines and the merged line is modified, as the first line was before the
  call.
\<close>

theorem unflagged_slot_unchanged_witness:
  "KateModifiedWrapLine [\<lparr>m_text = ''abc'', modified = False, savedOnDisk = False\<rparr>] 0 0 3 True
     = Some \<lparr>kind = WrapLine, m_line = 0, m_col = 0, m_string = [], m_len = 3, m_newLine = True,
             m_lineModFlags = {RedoLine1Modified}\<rparr>
   \<and> \<not> isFlagSet UndoLine1Modified
         \<lparr>kind = WrapLine, m_line = 0, m_col = 0, m_string = [], m_len = 3, m_newLine = True,
          m_lineModFlags = {RedoLine1Modified}\<rparr>
   \<and> \<not> isFlagSet UndoLine1Saved
         \<lparr>kind = WrapLine, m_line = 0, m_col = 0, m_string = [], m_len = 3, m_newLine = True,
          m_lineModFlags = {RedoLine1Modified}\<rparr>
   \<and> redo \<lparr>kind = WrapLine, m_line = 0, m_col = 0, m_string = [], m_len = 3, m_newLine = True,
            m_lineModFlags = {RedoLine1Modified}\<rparr>
          [\<lparr>m_text = ''abc'', modified = False, savedOnDisk = False\<rparr>]
     = Some [\<lparr>m_text = [], modified = True, savedOnDisk = False\<rparr>,
             \<lparr>m_text = ''abc'', modified = False, savedOnDisk = False\<rparr>]
   \<and> undo \<lparr>kind = WrapLine, m_line = 0, m_col = 0, m_string = [], m_len = 3, m_newLine = True,
            m_lineModFlags = {RedoLine1Modified}\<rparr>
          [\<lparr>m_text = [], modified = True, savedOnDisk = False\<rparr>,
           \<lparr>m_text = ''abc'', modified = False, savedOnDisk = False\<rparr>]
     = Some [\<lparr>m_text = ''abc'', modified = True, savedOnDisk = False\<rparr>]
   \<and> modified ([\<lparr>m_text = ''abc'', modified = True, savedOnDisk = False\<rparr>] ! nat 0)
       = modified ([\<lparr>m_text = [], modified = True, savedOnDisk = False\<rparr>,
                    \<lparr>m_text = ''abc'', modified = False, savedOnDisk = False\<rparr>] ! nat 0)
   \<and> savedOnDisk ([\<lparr>m_text = ''abc'', modified = True, savedOnDisk = False\<rparr>] ! nat 0)
       = savedOnDisk ([\<lparr>m_text = [], modified = True, savedOnDisk = False\<rparr>,
                       \<lparr>m_text = ''abc'', modified = False, savedOnDisk = False\<rparr>] ! nat 0)"
proof -
  let ?u = "\<lparr>kind = WrapLine, m_line = 0, m_col = 0, m_string = [], m_len = 3, m_newLine = True,
          m_lineModFlags = {RedoLine1Modified}\<rparr>"
  let ?a = "[\<lparr>m_text = ''abc'', modified = False, savedOnDisk = False\<rparr>]"
  let ?d = "[\<lparr>m_text = [], modified = True, savedOnDisk = False\<rparr>,
         \<lparr>m_text = ''abc'', modified = False, savedOnDisk = False\<rparr>]"
  let ?d' = "[\<lparr>m_text = ''abc'', modified = True, savedOnDisk = False\<rparr>]"
  have c: "KateModifiedWrapLine ?a 0 0 3 True = Some ?u"
    by (simp add: KateModifiedWrapLine_def KateEditWrapLineUndo_def plainKateTextLine_def
        validLine_def markedAsModified_def markedAsSavedOnDisk_def setFlag_def Let_def)
  have r: "redo ?u ?a = Some ?d"
    by (simp add: redo_def KateModifiedWrapLine_redo_def KateEditWrapLineUndo_redo_def
        editWrapLine_def markLine_def plainKateTextLine_def validLine_def isFlagSet_def
        markAsModified_def markAsSavedOnDisk_def Let_def)
  have 1: "undo ?u ?d = Some ?d'"
    by (simp add: undo_def KateModifiedWrapLine_undo_def KateEditWrapLineUndo_undo_def
        editUnWrapLine_def markLine_def plainKateTextLine_def validLine_def isFlagSet_def
        markAsModified_def markAsSavedOnDisk_def Let_def)
  have 2: "kind ?u \<noteq> InsertLine" "kind ?u \<noteq> RemoveLine" by simp_all
  have 3: "\<not> isFlagSet UndoLine1Modified ?u" "\<not> isFlagSet UndoLine1Saved ?u"
    by (simp_all add: isFlagSet_def)
  from unflagged_slot_unchanged [of ?u ?d ?d'] 1 2 3
  have "modified (?d' ! nat (m_line ?u)) = modified (?d ! nat (m_line ?u))
      \<and> savedOnDisk (?d' ! nat (m_line ?u)) = savedOnDisk (?d ! nat (m_line ?u))"
    by blast
  with c r 1 3 show ?thesis by simp
qed

section \<open>Save reconciliation: the flag invariant\<close>

lemma markSavedOnce_cases:
  assumes "markSavedOnce cond i M S u lines = Some (u', lines')"
  shows "(u' = u \<and> lines' = lines)
       \<or> (cond \<and> u' = setFlag S (unsetFlag M u) \<and> lines' = lines[nat i := True]
           \<and> testBit lines i = Some False)"
  using assms
  by (auto simp add: markSavedOnce_def testBit_def setBit_def split: if_splits option.splits)

lemma onlyModifiedToSaved_refl: "onlyModifiedToSaved u u"
  by (simp add: onlyModifiedToSaved_def pairKeptOrSaved_def)

lemma pairKeptOrSaved_trans:
  "pairKeptOrSaved M S F F' \<Longrightarrow> pairKeptOrSaved M S F' F'' \<Longrightarrow> pairKeptOrSaved M S F F''"
  unfolding pairKeptOrSaved_def by blast

lemma onlyModifiedToSaved_trans:
  assumes "onlyModifiedToSaved u u'" and "onlyModifiedToSaved u' u''"
  shows "onlyModifiedToSaved u u''"
proof -
  from assms have "u''\<lparr>m_lineModFlags := m_lineModFlags u\<rparr> = u"
    unfolding onlyModifiedToSaved_def
    by (metis KateUndo.surjective KateUndo.update_convs(7))
  with assms show ?thesis
    unfolding onlyModifiedToSaved_def by (blast intro: pairKeptOrSaved_trans)
qed

lemma saved_step:
  assumes "M \<in> m_lineModFlags u \<or> S \<in> m_lineModFlags u"
    and "(M, S) \<in> {(RedoLine1Modified, RedoLine1Saved), (RedoLine2Modified, RedoLine2Saved),
                   (UndoLine1Modified, UndoLine1Saved), (UndoLine2Modified, UndoLine2Saved)}"
  shows "onlyModifiedToSaved u (setFlag S (unsetFlag M u))"
  using assms
  by (auto simp add: onlyModifiedToSaved_def pairKeptOrSaved_def setFlag_def unsetFlag_def)

lemma onlyModifiedToSaved_invariant:
  assumes "onlyModifiedToSaved u u'" and "flagInvariant u"
  shows "flagInvariant u'"
proof -
  from assms(1) have k: "kind u' = kind u"
    unfolding onlyModifiedToSaved_def
    by (metis KateUndo.select_convs(1) KateUndo.surjective KateUndo.update_convs(7))
  from assms have "pairExclusive (m_lineModFlags u')"
    unfolding onlyModifiedToSaved_def flagInvariant_def pairExclusive_def pairKeptOrSaved_def
    by blast
  moreover from assms k have "pairsPresent u'"
    unfolding onlyModifiedToSaved_def flagInvariant_def pairsPresent_def pairKeptOrSaved_def Let_def
    by (cases "kind u") auto
  ultimately show ?thesis by (simp add: flagInvariant_def)
qed


lemma oneSlot_step:
  assumes m: "markSavedOnce cond i M S u lines = Some (u', lines')"
    and c: "cond \<Longrightarrow> M \<in> m_lineModFlags u \<or> S \<in> m_lineModFlags u"
    and p: "(M, S) \<in> {(RedoLine1Modified, RedoLine1Saved), (RedoLine2Modified, RedoLine2Saved),
                   (UndoLine1Modified, UndoLine1Saved), (UndoLine2Modified, UndoLine2Saved)}"
  shows "onlyModifiedToSaved u u'"
proof -
  from markSavedOnce_cases [OF m] consider "u' = u" | "cond" "u' = setFlag S (unsetFlag M u)"
    by blast
  then show ?thesis
  proof cases
    case 1
    then show ?thesis by (simp add: onlyModifiedToSaved_refl)
  next
    case 2
    with c p show ?thesis by (simp only: saved_step)
  qed
qed

lemma twoSlot_step:
  assumes m: "(case markSavedOnce (isFlagSet M1 u) i M1 S1 u lines of
                 None \<Rightarrow> None
               | Some (u1, lines2) \<Rightarrow>
                   markSavedOnce (isFlagSet M2 u1) (m_line u1 + 1) M2 S2 u1 lines2) = Some (u', lines')"
    and p1: "(M1, S1) \<in> {(RedoLine1Modified, RedoLine1Saved), (RedoLine2Modified, RedoLine2Saved),
                   (UndoLine1Modified, UndoLine1Saved), (UndoLine2Modified, UndoLine2Saved)}"
    and p2: "(M2, S2) \<in> {(RedoLine1Modified, RedoLine1Saved), (RedoLine2Modified, RedoLine2Saved),
                   (UndoLine1Modified, UndoLine1Saved), (UndoLine2Modified, UndoLine2Saved)}"
  shows "onlyModifiedToSaved u u'"
proof -
  from m obtain u1 lines2 where
    1: "markSavedOnce (isFlagSet M1 u) i M1 S1 u lines = Some (u1, lines2)"
    and 2: "markSavedOnce (isFlagSet M2 u1) (m_line u1 + 1) M2 S2 u1 lines2 = Some (u', lines')"
    by (auto split: option.splits)
  have "onlyModifiedToSaved u u1"
    by (rule oneSlot_step [OF 1 _ p1]) (simp add: isFlagSet_def)
  moreover have "onlyModifiedToSaved u1 u'"
    by (rule oneSlot_step [OF 2 _ p2]) (simp add: isFlagSet_def)
  ultimately show ?thesis by (rule onlyModifiedToSaved_trans)
qed

lemma updateRedo_step:
  assumes inv: "flagInvariant u" and upd: "updateRedoSavedOnDiskFlag u lines = Some (u', lines')"
  shows "onlyModifiedToSaved u u'"
proof (cases "kind u")
  case InsertText
  with inv have "RedoLine1Modified \<in> m_lineModFlags u \<or> RedoLine1Saved \<in> m_lineModFlags u"
    by (simp add: flagInvariant_def pairsPresent_def Let_def)
  with upd InsertText show ?thesis
    by (auto simp add: updateRedoSavedOnDiskFlag_def
        KateModifiedInsertText_updateRedoSavedOnDiskFlag_def Let_def intro: oneSlot_step)
next
  case RemoveText
  with inv have "RedoLine1Modified \<in> m_lineModFlags u \<or> RedoLine1Saved \<in> m_lineModFlags u"
    by (simp add: flagInvariant_def pairsPresent_def Let_def)
  with upd RemoveText show ?thesis
    by (auto simp add: updateRedoSavedOnDiskFlag_def
        KateModifiedRemoveText_updateRedoSavedOnDiskFlag_def Let_def intro: oneSlot_step)
next
  case WrapLine
  with upd have "\<exists>l. (case markSavedOnce (isFlagSet RedoLine1Modified u) (m_line u)
             RedoLine1Modified RedoLine1Saved u l of
        None \<Rightarrow> None
      | Some (u1, lines2) \<Rightarrow>
          markSavedOnce (isFlagSet RedoLine2Modified u1) (m_line u1 + 1)
            RedoLine2Modified RedoLine2Saved u1 lines2) = Some (u', lines')"
    by (auto simp add: updateRedoSavedOnDiskFlag_def
        KateModifiedWrapLine_updateRedoSavedOnDiskFlag_def Let_def)
  then obtain l where "(case markSavedOnce (isFlagSet RedoLine1Modified u) (m_line u)
             RedoLine1Modified RedoLine1Saved u l of
        None \<Rightarrow> None
      | Some (u1, lines2) \<Rightarrow>
          markSavedOnce (isFlagSet RedoLine2Modified u1) (m_line u1 + 1)
            RedoLine2Modified RedoLine2Saved u1 lines2) = Some (u', lines')" ..
  then show ?thesis by (rule twoSlot_step) simp_all
next
  case UnWrapLine
  with upd have "\<exists>l. markSavedOnce (isFlagSet RedoLine1Modified u) (m_line u)
      RedoLine1Modified RedoLine1Saved u l = Some (u', lines')"
    by (auto simp add: updateRedoSavedOnDiskFlag_def
        KateModifiedUnWrapLine_updateRedoSavedOnDiskFlag_def Let_def)
  then obtain l where "markSavedOnce (isFlagSet RedoLine1Modified u) (m_line u)
      RedoLine1Modified RedoLine1Saved u l = Some (u', lines')" ..
  then show ?thesis by (rule oneSlot_step) (simp_all add: isFlagSet_def)
next
  case InsertLine
  with inv have "RedoLine1Modified \<in> m_lineModFlags u \<or> RedoLine1Saved \<in> m_lineModFlags u"
    by (simp add: flagInvariant_def pairsPresent_def Let_def)
  with upd InsertLine show ?thesis
    by (auto simp add: updateRedoSavedOnDiskFlag_def
        KateModifiedInsertLine_updateRedoSavedOnDiskFlag_def Let_def intro: oneSlot_step)
next
  case RemoveLine
  with upd show ?thesis
    by (simp add: updateRedoSavedOnDiskFlag_def onlyModifiedToSaved_refl)
qed

lemma updateUndo_step:
  assumes inv: "flagInvariant u" and upd: "updateUndoSavedOnDiskFlag u lines = Some (u', lines')"
  shows "onlyModifiedToSaved u u'"
proof (cases "kind u")
  case InsertText
  with inv have "UndoLine1Modified \<in> m_lineModFlags u \<or> UndoLine1Saved \<in> m_lineModFlags u"
    by (simp add: flagInvariant_def pairsPresent_def Let_def)
  with upd InsertText show ?thesis
    by (auto simp add: updateUndoSavedOnDiskFlag_def
        KateModifiedInsertText_updateUndoSavedOnDiskFlag_def Let_def intro: oneSlot_step)
next
  case RemoveText
  with inv have "UndoLine1Modified \<in> m_lineModFlags u \<or> UndoLine1Saved \<in> m_lineModFlags u"
    by (simp add: flagInvariant_def pairsPresent_def Let_def)
  with upd RemoveText show ?thesis
    by (auto simp add: updateUndoSavedOnDiskFlag_def
        KateModifiedRemoveText_updateUndoSavedOnDiskFlag_def Let_def intro: oneSlot_step)
next
  case WrapLine
  with upd have "\<exists>l. markSavedOnce (isFlagSet UndoLine1Modified u) (m_line u)
      UndoLine1Modified UndoLine1Saved u l = Some (u', lines')"
    by (auto simp add: updateUndoSavedOnDiskFlag_def
        KateModifiedWrapLine_updateUndoSavedOnDiskFlag_def Let_def)
  then obtain l where "markSavedOnce (isFlagSet UndoLine1Modified u) (m_line u)
      UndoLine1Modified UndoLine1Saved u l = Some (u', lines')" ..
  then show ?thesis by (rule oneSlot_step) (simp_all add: isFlagSet_def)
next
  case UnWrapLine
  with upd have "\<exists>l. (case markSavedOnce (isFlagSet UndoLine1Modified u) (m_line u)
             UndoLine1Modified UndoLine1Saved u l of
        None \<Rightarrow> None
      | Some (u1, lines2) \<Rightarrow>
          markSavedOnce (isFlagSet UndoLine2Modified u1) (m_line u1 + 1)
            UndoLine2Modified UndoLine2Saved u1 lines2) = Some (u', lines')"
    by (auto simp add: updateUndoSavedOnDiskFlag_def
        KateModifiedUnWrapLine_updateUndoSavedOnDiskFlag_def Let_def)
  then obtain l where "(case markSavedOnce (isFlagSet UndoLine1Modified u) (m_line u)
             UndoLine1Modified UndoLine1Saved u l of
        None \<Rightarrow> None
      | Some (u1, lines2) \<Rightarrow>
          markSavedOnce (isFlagSet UndoLine2Modified u1) (m_line u1 + 1)
            UndoLine2Modified UndoLine2Saved u1 lines2) = Some (u', lines')" ..
  then show ?thesis by (rule twoSlot_step) simp_all
next
  case InsertLine
  with upd show ?thesis
    by (simp add: updateUndoSavedOnDiskFlag_def onlyModifiedToSaved_refl)
next
  case RemoveLine
  with inv have "UndoLine1Modified \<in> m_lineModFlags u \<or> UndoLine1Saved \<in> m_lineModFlags u"
    by (simp add: flagInvariant_def pairsPresent_def Let_def)
  with upd RemoveLine show ?thesis
    by (auto simp add: updateUndoSavedOnDiskFlag_def
        KateModifiedRemoveLine_updateUndoSavedOnDiskFlag_def Let_def intro: oneSlot_step)
qed

lemma constructed_InsertText:
  "KateModifiedInsertText document line col s = Some u \<Longrightarrow> flagInvariant u"
  by (auto simp add: KateModifiedInsertText_def KateEditInsertTextUndo_def setFlag_def
      flagInvariant_def pairExclusive_def pairsPresent_def Let_def split: option.splits if_splits)

lemma constructed_RemoveText:
  "KateModifiedRemoveText document line col s = Some u \<Longrightarrow> flagInvariant u"
  by (auto simp add: KateModifiedRemoveText_def KateEditRemoveTextUndo_def setFlag_def
      flagInvariant_def pairExclusive_def pairsPresent_def Let_def split: option.splits if_splits)

lemma constructed_WrapLine:
  "KateModifiedWrapLine document line col len newLine = Some u \<Longrightarrow> flagInvariant u"
  by (auto simp add: KateModifiedWrapLine_def KateEditWrapLineUndo_def setFlag_def
      flagInvariant_def pairExclusive_def pairsPresent_def Let_def split: option.splits if_splits)

lemma constructed_UnWrapLine:
  "KateModifiedUnWrapLine document line col len removeLine = Some u \<Longrightarrow> flagInvariant u"
  by (auto simp add: KateModifiedUnWrapLine_def KateEditUnWrapLineUndo_def setFlag_def
      flagInvariant_def pairExclusive_def pairsPresent_def Let_def split: option.splits if_splits)

lemma constructed_InsertLine: "flagInvariant (KateModifiedInsertLine line s)"
  by (simp add: KateModifiedInsertLine_def KateEditInsertLineUndo_def setFlag_def
      flagInvariant_def pairExclusive_def pairsPresent_def Let_def)

lemma constructed_RemoveLine:
  "KateModifiedRemoveLine document line s = Some u \<Longrightarrow> flagInvariant u"
  by (auto simp add: KateModifiedRemoveLine_def KateEditRemoveLineUndo_def setFlag_def
      flagInvariant_def pairExclusive_def pairsPresent_def Let_def split: option.splits if_splits)


lemma markSavedOnce_total:
  assumes "0 \<le> i" and "i < int (length lines)"
  shows "\<exists>u' lines'. markSavedOnce cond i M S u lines = Some (u', lines')
           \<and> length lines' = length lines \<and> m_line u' = m_line u \<and> kind u' = kind u"
  using assms
  by (simp add: markSavedOnce_def testBit_def setBit_def setFlag_def unsetFlag_def)

lemma resized_length:
  "0 \<le> i \<Longrightarrow> i < int (length (if int (length lines) \<le> i then resize lines (i + 1) else lines))"
  by (simp add: resize_def)

lemma resized_length2:
  "0 \<le> i \<Longrightarrow> i + 1 < int (length (if int (length lines) \<le> i + 1 then resize lines (i + 2) else lines))"
  by (simp add: resize_def)

lemma oneSlot_total:
  assumes "0 \<le> m_line u"
  shows "\<exists>u' lines'.
           markSavedOnce cond (m_line u) M S u
             (if int (length lines) \<le> m_line u then resize lines (m_line u + 1) else lines)
             = Some (u', lines')
           \<and> m_line u' = m_line u \<and> kind u' = kind u"
  using markSavedOnce_total [OF assms resized_length [OF assms]] by blast

lemma updateRedo_total:
  assumes "0 \<le> m_line u"
  shows "\<exists>u' lines'. updateRedoSavedOnDiskFlag u lines = Some (u', lines')
           \<and> m_line u' = m_line u \<and> kind u' = kind u"
proof (cases "kind u")
  case WrapLine
  let ?l = "if int (length lines) \<le> m_line u + 1 then resize lines (m_line u + 2) else lines"
  from assms have len: "m_line u + 1 < int (length ?l)" by (rule resized_length2)
  with assms have "m_line u < int (length ?l)" by linarith
  from markSavedOnce_total [OF assms this] obtain u1 lines2 where
    1: "markSavedOnce (isFlagSet RedoLine1Modified u) (m_line u) RedoLine1Modified RedoLine1Saved u ?l
          = Some (u1, lines2)"
    and p: "length lines2 = length ?l" "m_line u1 = m_line u" "kind u1 = kind u"
    by blast
  from assms p len have "0 \<le> m_line u1 + 1" "m_line u1 + 1 < int (length lines2)" by simp_all
  from markSavedOnce_total [OF this] obtain u' lines' where
    "markSavedOnce (isFlagSet RedoLine2Modified u1) (m_line u1 + 1) RedoLine2Modified RedoLine2Saved u1 lines2
       = Some (u', lines')" "m_line u' = m_line u1" "kind u' = kind u1"
    by blast
  with 1 p WrapLine show ?thesis
    by (simp add: updateRedoSavedOnDiskFlag_def KateModifiedWrapLine_updateRedoSavedOnDiskFlag_def Let_def)
next
  case InsertText
  from oneSlot_total [OF assms, of "True" RedoLine1Modified RedoLine1Saved lines] show ?thesis
    unfolding updateRedoSavedOnDiskFlag_def KateModifiedInsertText_updateRedoSavedOnDiskFlag_def
      Let_def InsertText
    by (simp only: UndoKind.simps)
next
  case RemoveText
  from oneSlot_total [OF assms, of "True" RedoLine1Modified RedoLine1Saved lines] show ?thesis
    unfolding updateRedoSavedOnDiskFlag_def KateModifiedRemoveText_updateRedoSavedOnDiskFlag_def
      Let_def RemoveText
    by (simp only: UndoKind.simps)
next
  case UnWrapLine
  from oneSlot_total [OF assms, of "isFlagSet RedoLine1Modified u" RedoLine1Modified RedoLine1Saved lines] show ?thesis
    unfolding updateRedoSavedOnDiskFlag_def KateModifiedUnWrapLine_updateRedoSavedOnDiskFlag_def
      Let_def UnWrapLine
    by (simp only: UndoKind.simps)
next
  case InsertLine
  from oneSlot_total [OF assms, of "True" RedoLine1Modified RedoLine1Saved lines] show ?thesis
    unfolding updateRedoSavedOnDiskFlag_def KateModifiedInsertLine_updateRedoSavedOnDiskFlag_def
      Let_def InsertLine
    by (simp only: UndoKind.simps)
next
  case RemoveLine
  then show ?thesis by (simp add: updateRedoSavedOnDiskFlag_def)
qed

lemma updateUndo_total:
  assumes "0 \<le> m_line u"
  shows "\<exists>u' lines'. updateUndoSavedOnDiskFlag u lines = Some (u', lines')
           \<and> m_line u' = m_line u \<and> kind u' = kind u"
proof (cases "kind u")
  case UnWrapLine
  let ?l = "if int (length lines) \<le> m_line u + 1 then resize lines (m_line u + 2) else lines"
  from assms have len: "m_line u + 1 < int (length ?l)" by (rule resized_length2)
  with assms have "m_line u < int (length ?l)" by linarith
  from markSavedOnce_total [OF assms this] obtain u1 lines2 where
    1: "markSavedOnce (isFlagSet UndoLine1Modified u) (m_line u) UndoLine1Modified UndoLine1Saved u ?l
          = Some (u1, lines2)"
    and p: "length lines2 = length ?l" "m_line u1 = m_line u" "kind u1 = kind u"
    by blast
  from assms p len have "0 \<le> m_line u1 + 1" "m_line u1 + 1 < int (length lines2)" by simp_all
  from markSavedOnce_total [OF this] obtain u' lines' where
    "markSavedOnce (isFlagSet UndoLine2Modified u1) (m_line u1 + 1) UndoLine2Modified UndoLine2Saved u1 lines2
       = Some (u', lines')" "m_line u' = m_line u1" "kind u' = kind u1"
    by blast
  with 1 p UnWrapLine show ?thesis
    by (simp add: updateUndoSavedOnDiskFlag_def KateModifiedUnWrapLine_updateUndoSavedOnDiskFlag_def Let_def)
next
  case InsertText
  from oneSlot_total [OF assms, of "True" UndoLine1Modified UndoLine1Saved lines] show ?thesis
    unfolding updateUndoSavedOnDiskFlag_def KateModifiedInsertText_updateUndoSavedOnDiskFlag_def
      Let_def InsertText
    by (simp only: UndoKind.simps)
next
  case RemoveText
  from oneSlot_total [OF assms, of "True" UndoLine1Modified UndoLine1Saved lines] show ?thesis
    unfolding updateUndoSavedOnDiskFlag_def KateModifiedRemoveText_updateUndoSavedOnDiskFlag_def
      Let_def RemoveText
    by (simp only: UndoKind.simps)
next
  case WrapLine
  from oneSlot_total [OF assms, of "isFlagSet UndoLine1Modified u" UndoLine1Modified UndoLine1Saved lines] show ?thesis
    unfolding updateUndoSavedOnDiskFlag_def KateModifiedWrapLine_updateUndoSavedOnDiskFlag_def
      Let_def WrapLine
    by (simp only: UndoKind.simps)
next
  case RemoveLine
  from oneSlot_total [OF assms, of "True" UndoLine1Modified UndoLine1Saved lines] show ?thesis
    unfolding updateUndoSavedOnDiskFlag_def KateModifiedRemoveLine_updateUndoSavedOnDiskFlag_def
      Let_def RemoveLine
    by (simp only: UndoKind.simps)
next
  case InsertLine
  then show ?thesis by (simp add: updateUndoSavedOnDiskFlag_def)
qed

lemma saved_pairExclusive:
  assumes "pairExclusive (m_lineModFlags u)"
    and "(M, S) \<in> {(RedoLine1Modified, RedoLine1Saved), (RedoLine2Modified, RedoLine2Saved),
                   (UndoLine1Modified, UndoLine1Saved), (UndoLine2Modified, UndoLine2Saved)}"
  shows "pairExclusive (m_lineModFlags (setFlag S (unsetFlag M u)))"
  using assms by (auto simp add: pairExclusive_def setFlag_def unsetFlag_def)

lemma markSavedOnce_pairExclusive:
  assumes "markSavedOnce cond i M S u lines = Some (u', lines')"
    and "pairExclusive (m_lineModFlags u)"
    and "(M, S) \<in> {(RedoLine1Modified, RedoLine1Saved), (RedoLine2Modified, RedoLine2Saved),
                   (UndoLine1Modified, UndoLine1Saved), (UndoLine2Modified, UndoLine2Saved)}"
  shows "pairExclusive (m_lineModFlags u')"
  using markSavedOnce_cases [OF assms(1)] assms(2) saved_pairExclusive [OF assms(2,3)]
  by auto

lemma updateRedo_pairExclusive:
  assumes "pairExclusive (m_lineModFlags u)"
    and "updateRedoSavedOnDiskFlag u lines = Some (u', lines')"
  shows "pairExclusive (m_lineModFlags u')"
proof (cases "kind u")
  case WrapLine
  with assms(2) obtain l u1 l1 where
    1: "markSavedOnce (isFlagSet RedoLine1Modified u) (m_line u)
          RedoLine1Modified RedoLine1Saved u l = Some (u1, l1)"
    and 2: "markSavedOnce (isFlagSet RedoLine2Modified u1) (m_line u1 + 1)
          RedoLine2Modified RedoLine2Saved u1 l1 = Some (u', lines')"
    by (auto simp add: updateRedoSavedOnDiskFlag_def
        KateModifiedWrapLine_updateRedoSavedOnDiskFlag_def Let_def split: option.splits)
  from markSavedOnce_pairExclusive [OF 1 assms(1)] have "pairExclusive (m_lineModFlags u1)" by simp
  from markSavedOnce_pairExclusive [OF 2 this] show ?thesis by simp
next
  case RemoveLine
  with assms show ?thesis by (simp add: updateRedoSavedOnDiskFlag_def)
qed (use assms in \<open>auto simp add: updateRedoSavedOnDiskFlag_def Let_def
      KateModifiedInsertText_updateRedoSavedOnDiskFlag_def
      KateModifiedRemoveText_updateRedoSavedOnDiskFlag_def
      KateModifiedUnWrapLine_updateRedoSavedOnDiskFlag_def
      KateModifiedInsertLine_updateRedoSavedOnDiskFlag_def
      dest!: markSavedOnce_pairExclusive\<close>)

lemma updateUndo_pairExclusive:
  assumes "pairExclusive (m_lineModFlags u)"
    and "updateUndoSavedOnDiskFlag u lines = Some (u', lines')"
  shows "pairExclusive (m_lineModFlags u')"
proof (cases "kind u")
  case UnWrapLine
  with assms(2) obtain l u1 l1 where
    1: "markSavedOnce (isFlagSet UndoLine1Modified u) (m_line u)
          UndoLine1Modified UndoLine1Saved u l = Some (u1, l1)"
    and 2: "markSavedOnce (isFlagSet UndoLine2Modified u1) (m_line u1 + 1)
          UndoLine2Modified UndoLine2Saved u1 l1 = Some (u', lines')"
    by (auto simp add: updateUndoSavedOnDiskFlag_def
        KateModifiedUnWrapLine_updateUndoSavedOnDiskFlag_def Let_def split: option.splits)
  from markSavedOnce_pairExclusive [OF 1 assms(1)] have "pairExclusive (m_lineModFlags u1)" by simp
  from markSavedOnce_pairExclusive [OF 2 this] show ?thesis by simp
next
  case InsertLine
  with assms show ?thesis by (simp add: updateUndoSavedOnDiskFlag_def)
qed (use assms in \<open>auto simp add: updateUndoSavedOnDiskFlag_def Let_def
      KateModifiedInsertText_updateUndoSavedOnDiskFlag_def
      KateModifiedRemoveText_updateUndoSavedOnDiskFlag_def
      KateModifiedWrapLine_updateUndoSavedOnDiskFlag_def
      KateModifiedRemoveLine_updateUndoSavedOnDiskFlag_def
      dest!: markSavedOnce_pairExclusive\<close>)

text \<open>
  C5: in every undo record, for each (line slot, direction) pair at most one of the
  Modified and Saved flags is set. The invariant (together with the fact that the pairs a
  one-line record rewrites are never empty) holds for every record returned by one of the
  six constructors; \<open>updateRedoSavedOnDiskFlag\<close> and \<open>updateUndoSavedOnDiskFlag\<close>
  preserve it, and leave every pair either as it was or with its Modified flag, set before,
  replaced by its Saved flag, the rest of the record untouched. Both updates return for
  every record with a non-negative line, and they keep at most one flag per pair in any
  record that has at most one flag per pair, constructed or not.
\<close>

theorem flagInvariant_maintained:
  "(\<forall>document line col s u.
      KateModifiedInsertText document line col s = Some u \<longrightarrow> flagInvariant u)
   \<and> (\<forall>document line col s u.
      KateModifiedRemoveText document line col s = Some u \<longrightarrow> flagInvariant u)
   \<and> (\<forall>document line col len newLine u.
      KateModifiedWrapLine document line col len newLine = Some u \<longrightarrow> flagInvariant u)
   \<and> (\<forall>document line col len removeLine u.
      KateModifiedUnWrapLine document line col len removeLine = Some u \<longrightarrow> flagInvariant u)
   \<and> (\<forall>line s. flagInvariant (KateModifiedInsertLine line s))
   \<and> (\<forall>document line s u.
      KateModifiedRemoveLine document line s = Some u \<longrightarrow> flagInvariant u)
   \<and> (\<forall>u lines u' lines'.
      flagInvariant u \<and> updateRedoSavedOnDiskFlag u lines = Some (u', lines')
      \<longrightarrow> flagInvariant u' \<and> onlyModifiedToSaved u u')
   \<and> (\<forall>u lines u' lines'.
      flagInvariant u \<and> updateUndoSavedOnDiskFlag u lines = Some (u', lines')
      \<longrightarrow> flagInvariant u' \<and> onlyModifiedToSaved u u')
   \<and> (\<forall>u lines. 0 \<le> m_line u \<longrightarrow>
        (\<exists>u' lines'. updateRedoSavedOnDiskFlag u lines = Some (u', lines'))
        \<and> (\<exists>u' lines'. updateUndoSavedOnDiskFlag u lines = Some (u', lines')))
   \<and> (\<forall>u. flagInvariant u \<longrightarrow> pairExclusive (m_lineModFlags u))
   \<and> (\<forall>u lines u' lines'.
      pairExclusive (m_lineModFlags u) \<and> updateRedoSavedOnDiskFlag u lines = Some (u', lines')
      \<longrightarrow> pairExclusive (m_lineModFlags u'))
   \<and> (\<forall>u lines u' lines'.
      pairExclusive (m_lineModFlags u) \<and> updateUndoSavedOnDiskFlag u lines = Some (u', lines')
      \<longrightarrow> pairExclusive (m_lineModFlags u'))"
proof (intro conjI allI impI)
  fix u :: KateUndo and lines u' lines'
  assume a: "flagInvariant u \<and> updateRedoSavedOnDiskFlag u lines = Some (u', lines')"
  then have s: "onlyModifiedToSaved u u'" using updateRedo_step by blast
  with a show "flagInvariant u'" by (simp add: onlyModifiedToSaved_invariant)
  from s show "onlyModifiedToSaved u u'" .
next
  fix u :: KateUndo and lines u' lines'
  assume a: "flagInvariant u \<and> updateUndoSavedOnDiskFlag u lines = Some (u', lines')"
  then have s: "onlyModifiedToSaved u u'" using updateUndo_step by blast
  with a show "flagInvariant u'" by (simp add: onlyModifiedToSaved_invariant)
  from s show "onlyModifiedToSaved u u'" .
next
  fix u :: KateUndo and lines :: "bool list"
  assume "0 \<le> m_line u"
  from updateRedo_total [OF this, of lines] updateUndo_total [OF this, of lines]
  show "\<exists>u' lines'. updateRedoSavedOnDiskFlag u lines = Some (u', lines')"
    and "\<exists>u' lines'. updateUndoSavedOnDiskFlag u lines = Some (u', lines')"
    by blast+
next
  fix document line col s u
  assume "KateModifiedInsertText document line col s = Some u"
  then show "flagInvariant u" by (rule constructed_InsertText)
next
  fix document line col s u
  assume "KateModifiedRemoveText document line col s = Some u"
  then show "flagInvariant u" by (rule constructed_RemoveText)
next
  fix document line col len newLine u
  assume "KateModifiedWrapLine document line col len newLine = Some u"
  then show "flagInvariant u" by (rule constructed_WrapLine)
next
  fix document line col len removeLine u
  assume "KateModifiedUnWrapLine document line col len removeLine = Some u"
  then show "flagInvariant u" by (rule constructed_UnWrapLine)
next
  fix line s
  show "flagInvariant (KateModifiedInsertLine line s)" by (rule constructed_InsertLine)
next
  fix document line s u
  assume "KateModifiedRemoveLine document line s = Some u"
  then show "flagInvariant u" by (rule constructed_RemoveLine)
next
  fix u
  assume "flagInvariant u"
  then show "pairExclusive (m_lineModFlags u)" by (simp add: flagInvariant_def)
next
  fix u :: KateUndo and lines u' lines'
  assume "pairExclusive (m_lineModFlags u) \<and> updateRedoSavedOnDiskFlag u lines = Some (u', lines')"
  then show "pairExclusive (m_lineModFlags u')" using updateRedo_pairExclusive by blast
next
  fix u :: KateUndo and lines u' lines'
  assume "pairExclusive (m_lineModFlags u) \<and> updateUndoSavedOnDiskFlag u lines = Some (u', lines')"
  then show "pairExclusive (m_lineModFlags u')" using updateUndo_pairExclusive by blast
qed

text \<open>
  An InsertText record constructed on a modified line, reconciled with a fresh bitmap: its
  \<open>RedoLine1Modified\<close> becomes \<open>RedoLine1Saved\<close>.
\<close>

theorem flagInvariant_maintained_witness:
  "KateModifiedInsertText [\<lparr>m_text = ''abc'', modified = True, savedOnDisk = False\<rparr>] 0 1 ''x''
     = Some \<lparr>kind = InsertText, m_line = 0, m_col = 1, m_string = ''x'', m_len = 1, m_newLine = False,
             m_lineModFlags = {UndoLine1Modified, RedoLine1Modified}\<rparr>
   \<and> flagInvariant \<lparr>kind = InsertText, m_line = 0, m_col = 1, m_string = ''x'', m_len = 1,
                     m_newLine = False, m_lineModFlags = {UndoLine1Modified, RedoLine1Modified}\<rparr>
   \<and> updateRedoSavedOnDiskFlag
        \<lparr>kind = InsertText, m_line = 0, m_col = 1, m_string = ''x'', m_len = 1, m_newLine = False,
         m_lineModFlags = {UndoLine1Modified, RedoLine1Modified}\<rparr> []
     = Some (\<lparr>kind = InsertText, m_line = 0, m_col = 1, m_string = ''x'', m_len = 1, m_newLine = False,
              m_lineModFlags = {UndoLine1Modified, RedoLine1Saved}\<rparr>, [True])
   \<and> flagInvariant \<lparr>kind = InsertText, m_line = 0, m_col = 1, m_string = ''x'', m_len = 1,
                     m_newLine = False, m_lineModFlags = {UndoLine1Modified, RedoLine1Saved}\<rparr>
   \<and> pairExclusive {UndoLine1Modified, RedoLine1Saved}"
proof -
  let ?d = "[\<lparr>m_text = ''abc'', modified = True, savedOnDisk = False\<rparr>]"
  let ?u = "\<lparr>kind = InsertText, m_line = 0, m_col = 1, m_string = ''x'', m_len = 1, m_newLine = False,
             m_lineModFlags = {UndoLine1Modified, RedoLine1Modified}\<rparr>"
  let ?u' = "\<lparr>kind = InsertText, m_line = 0, m_col = 1, m_string = ''x'', m_len = 1, m_newLine = False,
              m_lineModFlags = {UndoLine1Modified, RedoLine1Saved}\<rparr>"
  have c: "KateModifiedInsertText ?d 0 1 ''x'' = Some ?u"
    by (simp add: KateModifiedInsertText_def KateEditInsertTextUndo_def plainKateTextLine_def
        validLine_def markedAsModified_def setFlag_def)
  note T = flagInvariant_maintained
  have i: "flagInvariant ?u" by (rule T [THEN conjunct1, rule_format, OF c])
  have r: "updateRedoSavedOnDiskFlag ?u [] = Some (?u', [True])"
    by (auto simp add: updateRedoSavedOnDiskFlag_def
        KateModifiedInsertText_updateRedoSavedOnDiskFlag_def markSavedOnce_def resize_def
        testBit_def setBit_def setFlag_def unsetFlag_def)
  from i r have "flagInvariant ?u \<and> updateRedoSavedOnDiskFlag ?u [] = Some (?u', [True])" ..
  from T [THEN conjunct2, THEN conjunct2, THEN conjunct2, THEN conjunct2, THEN conjunct2,
      THEN conjunct2, THEN conjunct1, rule_format, OF this]
  have i': "flagInvariant ?u'" ..
  from T [THEN conjunct2, THEN conjunct2, THEN conjunct2, THEN conjunct2, THEN conjunct2,
      THEN conjunct2, THEN conjunct2, THEN conjunct2, THEN conjunct2, THEN conjunct1,
      rule_format, OF i']
  have "pairExclusive (m_lineModFlags ?u')" .
  with c i r i' show ?thesis by simp
qed

section \<open>Save reconciliation: running the pass twice\<close>

lemma markSavedOnce_result:
  assumes "markSavedOnce cond i M S u lines = Some (u', lines')"
  shows "(u' = u \<and> lines' = lines \<and> (cond \<longrightarrow> testBit lines i = Some True))
       \<or> (cond \<and> u' = setFlag S (unsetFlag M u) \<and> lines' = lines[nat i := True]
           \<and> testBit lines i = Some False)"
  using assms
  by (auto simp add: markSavedOnce_def testBit_def setBit_def split: if_splits option.splits)

lemma markSavedOnce_skip:
  "\<not> cond \<or> testBit lines i = Some True \<Longrightarrow> markSavedOnce cond i M S u lines = Some (u, lines)"
  by (auto simp add: markSavedOnce_def)

lemma markSavedOnce_convert:
  "cond \<Longrightarrow> testBit lines i = Some False \<Longrightarrow>
   markSavedOnce cond i M S u lines = Some (setFlag S (unsetFlag M u), lines[nat i := True])"
  by (auto simp add: markSavedOnce_def testBit_def setBit_def split: if_splits)

lemma saved_fixed:
  assumes "S \<in> m_lineModFlags w" and "M \<notin> m_lineModFlags w"
  shows "setFlag S (unsetFlag M w) = w"
proof -
  from assms have "insert S (m_lineModFlags w - {M}) = m_lineModFlags w" by auto
  then show ?thesis by (simp add: setFlag_def unsetFlag_def)
qed

lemma saved_flags:
  "M \<noteq> S \<Longrightarrow> S \<in> m_lineModFlags (setFlag S (unsetFlag M u))"
  "M \<noteq> S \<Longrightarrow> M \<notin> m_lineModFlags (setFlag S (unsetFlag M u))"
  by (simp_all add: setFlag_def unsetFlag_def)

lemma testBit_marked:
  "testBit lines i = Some b \<Longrightarrow> testBit (lines[nat i := True]) i = Some True"
  by (auto simp add: testBit_def split: if_splits)

lemma testBit_update_other:
  "0 \<le> i \<Longrightarrow> j \<noteq> i \<Longrightarrow> testBit (lines[nat i := True]) j = testBit lines j"
  by (auto simp add: testBit_def nth_list_update)

lemma testBit_in_range: "testBit lines i = Some b \<Longrightarrow> 0 \<le> i"
  by (simp add: testBit_def split: if_splits)

lemma update_marked: "testBit lines i = Some True \<Longrightarrow> lines[nat i := True] = lines"
  by (auto simp add: testBit_def list_update_same_conv split: if_splits)

text \<open>Replaying one unconditional step on a record that already agrees with its result.\<close>

lemma replay_unconditional:
  assumes m: "markSavedOnce True i M S u lines = Some (u1, lines1)"
    and t: "testBit lines' i = testBit lines i"
    and w: "(M \<in> m_lineModFlags w) = (M \<in> m_lineModFlags u1)"
      "(S \<in> m_lineModFlags w) = (S \<in> m_lineModFlags u1)"
    and ne: "M \<noteq> S"
  shows "markSavedOnce True i M S w lines' = Some (w, lines'[nat i := True])"
    and "lines1 = lines[nat i := True]" and "0 \<le> i"
proof -
  from markSavedOnce_result [OF m]
  have "markSavedOnce True i M S w lines' = Some (w, lines'[nat i := True])
      \<and> lines1 = lines[nat i := True] \<and> 0 \<le> i"
  proof (elim disjE conjE)
    assume a: "u1 = u" "lines1 = lines" "True \<longrightarrow> testBit lines i = Some True"
    then have b: "testBit lines i = Some True" by simp
    with t have "testBit lines' i = Some True" by simp
    then have "markSavedOnce True i M S w lines' = Some (w, lines'[nat i := True])"
      by (simp add: markSavedOnce_skip update_marked)
    with a b show ?thesis by (simp add: update_marked testBit_in_range)
  next
    assume a: "u1 = setFlag S (unsetFlag M u)" "lines1 = lines[nat i := True]"
      "testBit lines i = Some False"
    from w a(1) saved_flags [OF ne, of u] have "S \<in> m_lineModFlags w" "M \<notin> m_lineModFlags w"
      by simp_all
    then have "setFlag S (unsetFlag M w) = w" by (rule saved_fixed)
    moreover from t a(3) have "testBit lines' i = Some False" by simp
    ultimately have "markSavedOnce True i M S w lines' = Some (w, lines'[nat i := True])"
      using markSavedOnce_convert [of True lines' i M S w] by simp
    with a show ?thesis by (simp add: testBit_in_range)
  qed
  then show "markSavedOnce True i M S w lines' = Some (w, lines'[nat i := True])"
    and "lines1 = lines[nat i := True]" and "0 \<le> i" by simp_all
qed

text \<open>Replaying one conditional step: nothing is marked the second time.\<close>

lemma replay_conditional:
  assumes m: "markSavedOnce (isFlagSet M u) i M S u lines = Some (u1, lines1)"
    and t: "testBit lines' i = testBit lines i"
    and w: "(M \<in> m_lineModFlags w) = (M \<in> m_lineModFlags u1)"
    and ne: "M \<noteq> S"
  shows "markSavedOnce (isFlagSet M w) i M S w lines' = Some (w, lines')"
    and "lines1 = lines \<or> (lines1 = lines[nat i := True] \<and> 0 \<le> i)"
proof -
  from markSavedOnce_result [OF m]
  have "markSavedOnce (isFlagSet M w) i M S w lines' = Some (w, lines')
      \<and> (lines1 = lines \<or> (lines1 = lines[nat i := True] \<and> 0 \<le> i))"
  proof (elim disjE conjE)
    assume a: "u1 = u" "lines1 = lines" "isFlagSet M u \<longrightarrow> testBit lines i = Some True"
    with w t have "\<not> isFlagSet M w \<or> testBit lines' i = Some True"
      by (auto simp add: isFlagSet_def)
    then have "markSavedOnce (isFlagSet M w) i M S w lines' = Some (w, lines')"
      by (rule markSavedOnce_skip)
    with a show ?thesis by simp
  next
    assume a: "u1 = setFlag S (unsetFlag M u)" "lines1 = lines[nat i := True]"
      "testBit lines i = Some False"
    from w a(1) saved_flags(2) [OF ne, of u] have "\<not> isFlagSet M w" by (simp add: isFlagSet_def)
    then have "markSavedOnce (isFlagSet M w) i M S w lines' = Some (w, lines')"
      by (simp add: markSavedOnce_skip)
    with a show ?thesis by (simp add: testBit_in_range)
  qed
  then show "markSavedOnce (isFlagSet M w) i M S w lines' = Some (w, lines')"
    and "lines1 = lines \<or> (lines1 = lines[nat i := True] \<and> 0 \<le> i)" by simp_all
qed

text \<open>Growing two marker bitmaps of the same length keeps them in agreement.\<close>

lemma grown_length:
  "length b' = length b \<Longrightarrow>
   length (if int (length b') \<le> k then resize b' n else b') =
   length (if int (length b) \<le> k then resize b n else b)"
  by (simp add: resize_def)

lemma grown_testBit:
  assumes "length b' = length b" and "testBit b' j = testBit b j" and "k < n"
  shows "testBit (if int (length b') \<le> k then resize b' n else b') j =
         testBit (if int (length b) \<le> k then resize b n else b) j"
  using assms
  by (auto simp add: testBit_def resize_def nth_append split: if_splits)


lemma oneSlot_replay:
  assumes m: "(let lines1 = (if m_line u \<ge> int (length b) then resize b (m_line u + 1) else b)
               in markSavedOnce True (m_line u) M S u lines1) = Some (u1, b1)"
    and len: "length b' = length b"
    and agree: "testBit b' (m_line u) = testBit b (m_line u)"
    and w: "(M \<in> m_lineModFlags w) = (M \<in> m_lineModFlags u1)"
      "(S \<in> m_lineModFlags w) = (S \<in> m_lineModFlags u1)"
    and lw: "m_line w = m_line u"
    and ne: "M \<noteq> S"
  shows "\<exists>b1'. (let lines1 = (if m_line w \<ge> int (length b') then resize b' (m_line w + 1) else b')
                in markSavedOnce True (m_line w) M S w lines1) = Some (w, b1')
          \<and> length b1' = length b1
          \<and> (\<forall>i. testBit b' i = testBit b i \<longrightarrow> testBit b1' i = testBit b1 i)"
proof -
  define k where "k = m_line u"
  define L where "L = (if int (length b) \<le> k then resize b (k + 1) else b)"
  define L' where "L' = (if int (length b') \<le> k then resize b' (k + 1) else b')"
  have lenL: "length L' = length L" unfolding L_def L'_def using len by (rule grown_length)
  have tb: "testBit L' j = testBit L j" if "testBit b' j = testBit b j" for j
    unfolding L_def L'_def using len that by (rule grown_testBit) simp
  from m have m': "markSavedOnce True k M S u L = Some (u1, b1)"
    by (simp only: Let_def L_def k_def)
  from agree have "testBit L' k = testBit L k" by (simp add: tb k_def)
  from replay_unconditional [OF m' this w ne]
  have r: "markSavedOnce True k M S w L' = Some (w, L'[nat k := True])"
    and b1: "b1 = L[nat k := True]" and k0: "0 \<le> k" by simp_all
  from markSavedOnce_result [OF m'] obtain x where x: "testBit L k = Some x" by auto
  with \<open>testBit L' k = testBit L k\<close> have x': "testBit L' k = Some x" by simp
  have "testBit (L'[nat k := True]) i = testBit b1 i" if "testBit b' i = testBit b i" for i
  proof (cases "i = k")
    case True
    with testBit_marked [OF x] testBit_marked [OF x'] b1 show ?thesis by simp
  next
    case False
    with k0 tb [OF that] b1 show ?thesis by (simp add: testBit_update_other)
  qed
  moreover have "length (L'[nat k := True]) = length b1" using lenL b1 by simp
  moreover from r have "(let lines1 = (if m_line w \<ge> int (length b') then resize b' (m_line w + 1) else b')
                in markSavedOnce True (m_line w) M S w lines1) = Some (w, L'[nat k := True])"
    by (simp only: Let_def L'_def k_def lw)
  ultimately show ?thesis by blast
qed

lemma oneSlotCond_replay:
  assumes m: "(let lines1 = (if m_line u \<ge> int (length b) then resize b (m_line u + 1) else b)
               in markSavedOnce (isFlagSet M u) (m_line u) M S u lines1) = Some (u1, b1)"
    and len: "length b' = length b"
    and agree: "testBit b' (m_line u) = testBit b (m_line u)"
    and w: "(M \<in> m_lineModFlags w) = (M \<in> m_lineModFlags u1)"
    and lw: "m_line w = m_line u"
    and ne: "M \<noteq> S"
  shows "\<exists>b1'. (let lines1 = (if m_line w \<ge> int (length b') then resize b' (m_line w + 1) else b')
                in markSavedOnce (isFlagSet M w) (m_line w) M S w lines1) = Some (w, b1')
          \<and> length b1' = length b1
          \<and> (\<forall>i. i \<noteq> m_line u \<longrightarrow> testBit b' i = testBit b i \<longrightarrow> testBit b1' i = testBit b1 i)"
proof -
  define k where "k = m_line u"
  define L where "L = (if int (length b) \<le> k then resize b (k + 1) else b)"
  define L' where "L' = (if int (length b') \<le> k then resize b' (k + 1) else b')"
  have lenL: "length L' = length L" unfolding L_def L'_def using len by (rule grown_length)
  have tb: "testBit L' j = testBit L j" if "testBit b' j = testBit b j" for j
    unfolding L_def L'_def using len that by (rule grown_testBit) simp
  from m have m': "markSavedOnce (isFlagSet M u) k M S u L = Some (u1, b1)"
    by (simp only: Let_def L_def k_def)
  from agree have "testBit L' k = testBit L k" by (simp add: tb k_def)
  from replay_conditional [OF m' this w ne]
  have r: "markSavedOnce (isFlagSet M w) k M S w L' = Some (w, L')"
    and b1: "b1 = L \<or> (b1 = L[nat k := True] \<and> 0 \<le> k)" by simp_all
  have "testBit L' i = testBit b1 i" if "i \<noteq> k" "testBit b' i = testBit b i" for i
    using b1 tb [OF that(2)] that(1) by (auto simp add: testBit_update_other)
  moreover have "length L' = length b1" using lenL b1 by auto
  moreover from r have "(let lines1 = (if m_line w \<ge> int (length b') then resize b' (m_line w + 1) else b')
                in markSavedOnce (isFlagSet M w) (m_line w) M S w lines1) = Some (w, L')"
    by (simp only: Let_def L'_def k_def lw)
  ultimately show ?thesis unfolding k_def by blast
qed

lemma twoSlot_replay:
  assumes m: "(let lines1 = (if m_line u + 1 \<ge> int (length b) then resize b (m_line u + 2) else b)
               in case markSavedOnce (isFlagSet M1 u) (m_line u) M1 S1 u lines1 of
                    None \<Rightarrow> None
                  | Some (u1, lines2) \<Rightarrow>
                      markSavedOnce (isFlagSet M2 u1) (m_line u1 + 1) M2 S2 u1 lines2) = Some (u2, b2)"
    and len: "length b' = length b"
    and agree: "testBit b' (m_line u) = testBit b (m_line u)"
      "testBit b' (m_line u + 1) = testBit b (m_line u + 1)"
    and w: "(M1 \<in> m_lineModFlags w) = (M1 \<in> m_lineModFlags u2)"
      "(M2 \<in> m_lineModFlags w) = (M2 \<in> m_lineModFlags u2)"
    and lw: "m_line w = m_line u"
    and ne: "M1 \<noteq> S1" "M2 \<noteq> S2" "M1 \<noteq> M2" "M1 \<noteq> S2"
  shows "\<exists>b2'. (let lines1 = (if m_line w + 1 \<ge> int (length b') then resize b' (m_line w + 2) else b')
               in case markSavedOnce (isFlagSet M1 w) (m_line w) M1 S1 w lines1 of
                    None \<Rightarrow> None
                  | Some (u1, lines2) \<Rightarrow>
                      markSavedOnce (isFlagSet M2 u1) (m_line u1 + 1) M2 S2 u1 lines2) = Some (w, b2')
          \<and> length b2' = length b2
          \<and> (\<forall>i. i \<noteq> m_line u \<and> i \<noteq> m_line u + 1 \<longrightarrow> testBit b' i = testBit b i
                \<longrightarrow> testBit b2' i = testBit b2 i)"
proof -
  define k where "k = m_line u"
  define L where "L = (if int (length b) \<le> k + 1 then resize b (k + 2) else b)"
  define L' where "L' = (if int (length b') \<le> k + 1 then resize b' (k + 2) else b')"
  have lenL: "length L' = length L" unfolding L_def L'_def using len by (rule grown_length)
  have tb: "testBit L' j = testBit L j" if "testBit b' j = testBit b j" for j
    unfolding L_def L'_def using len that by (rule grown_testBit) simp
  from m obtain u1 l1 where
    1: "markSavedOnce (isFlagSet M1 u) k M1 S1 u L = Some (u1, l1)"
    and 2: "markSavedOnce (isFlagSet M2 u1) (m_line u1 + 1) M2 S2 u1 l1 = Some (u2, b2)"
    by (auto simp only: Let_def L_def k_def split: option.splits prod.splits)
  from markSavedOnce_result [OF 1] have lu1: "m_line u1 = k"
    by (auto simp add: k_def setFlag_def unsetFlag_def)
  from markSavedOnce_result [OF 2] ne
  have same1: "(M1 \<in> m_lineModFlags u2) = (M1 \<in> m_lineModFlags u1)"
    by (auto simp add: setFlag_def unsetFlag_def)
  with w(1) have w1: "(M1 \<in> m_lineModFlags w) = (M1 \<in> m_lineModFlags u1)" by simp
  from agree(1) have a1: "testBit L' k = testBit L k" by (simp add: tb k_def)
  from replay_conditional [OF 1 a1 w1 ne(1)]
  have r1: "markSavedOnce (isFlagSet M1 w) k M1 S1 w L' = Some (w, L')"
    and l1: "l1 = L \<or> (l1 = L[nat k := True] \<and> 0 \<le> k)" by simp_all
  from agree(2) have "testBit L' (k + 1) = testBit L (k + 1)" by (simp add: tb k_def)
  with l1 have a2: "testBit L' (k + 1) = testBit l1 (k + 1)"
    by (auto simp add: testBit_update_other)
  from 2 have m2: "markSavedOnce (isFlagSet M2 u1) (k + 1) M2 S2 u1 l1 = Some (u2, b2)"
    by (simp only: lu1)
  from replay_conditional [OF m2 a2 w(2) ne(2)]
  have r2: "markSavedOnce (isFlagSet M2 w) (k + 1) M2 S2 w L' = Some (w, L')"
    and b2: "b2 = l1 \<or> (b2 = l1[nat (k + 1) := True] \<and> 0 \<le> k + 1)" by simp_all
  have "testBit L' i = testBit b2 i" if "i \<noteq> k" "i \<noteq> k + 1" "testBit b' i = testBit b i" for i
    using b2 l1 tb [OF that(3)] that(1,2) by (auto simp add: testBit_update_other)
  moreover have "length L' = length b2" using lenL b2 l1 by auto
  moreover have "(let lines1 = (if m_line w + 1 \<ge> int (length b') then resize b' (m_line w + 2) else b')
               in case markSavedOnce (isFlagSet M1 w) (m_line w) M1 S1 w lines1 of
                    None \<Rightarrow> None
                  | Some (u1, lines2) \<Rightarrow>
                      markSavedOnce (isFlagSet M2 u1) (m_line u1 + 1) M2 S2 u1 lines2) = Some (w, L')"
  proof -
    have lwk: "m_line w = k" by (simp add: lw k_def)
    from r1 r2 have "(case markSavedOnce (isFlagSet M1 w) k M1 S1 w L' of
                    None \<Rightarrow> None
                  | Some (u1, lines2) \<Rightarrow>
                      markSavedOnce (isFlagSet M2 u1) (m_line u1 + 1) M2 S2 u1 lines2) = Some (w, L')"
      by (simp add: lwk)
    then show ?thesis by (simp only: Let_def lwk L'_def [symmetric])
  qed
  ultimately show ?thesis unfolding k_def by blast
qed


lemma updateRedo_shape:
  assumes "updateRedoSavedOnDiskFlag u b = Some (u1, b1)"
  shows "sameFlagsOn {UndoLine1Modified, UndoLine1Saved, UndoLine2Modified, UndoLine2Saved} u u1"
proof (cases "kind u")
  case WrapLine
  with assms obtain l u' l' where
    1: "markSavedOnce (isFlagSet RedoLine1Modified u) (m_line u) RedoLine1Modified RedoLine1Saved u l
          = Some (u', l')"
    and 2: "markSavedOnce (isFlagSet RedoLine2Modified u') (m_line u' + 1) RedoLine2Modified RedoLine2Saved u' l'
          = Some (u1, b1)"
    by (auto simp add: updateRedoSavedOnDiskFlag_def
        KateModifiedWrapLine_updateRedoSavedOnDiskFlag_def Let_def split: option.splits)
  from markSavedOnce_cases [OF 1] markSavedOnce_cases [OF 2] show ?thesis
    by (auto simp add: sameFlagsOn_def setFlag_def unsetFlag_def)
next
  case RemoveLine
  with assms show ?thesis by (simp add: updateRedoSavedOnDiskFlag_def sameFlagsOn_def)
qed (use assms in \<open>auto simp add: updateRedoSavedOnDiskFlag_def Let_def sameFlagsOn_def
      KateModifiedInsertText_updateRedoSavedOnDiskFlag_def
      KateModifiedRemoveText_updateRedoSavedOnDiskFlag_def
      KateModifiedUnWrapLine_updateRedoSavedOnDiskFlag_def
      KateModifiedInsertLine_updateRedoSavedOnDiskFlag_def
      setFlag_def unsetFlag_def dest!: markSavedOnce_cases\<close>)

lemma updateUndo_shape:
  assumes "updateUndoSavedOnDiskFlag u b = Some (u1, b1)"
  shows "sameFlagsOn {RedoLine1Modified, RedoLine1Saved, RedoLine2Modified, RedoLine2Saved} u u1"
proof (cases "kind u")
  case UnWrapLine
  with assms obtain l u' l' where
    1: "markSavedOnce (isFlagSet UndoLine1Modified u) (m_line u) UndoLine1Modified UndoLine1Saved u l
          = Some (u', l')"
    and 2: "markSavedOnce (isFlagSet UndoLine2Modified u') (m_line u' + 1) UndoLine2Modified UndoLine2Saved u' l'
          = Some (u1, b1)"
    by (auto simp add: updateUndoSavedOnDiskFlag_def
        KateModifiedUnWrapLine_updateUndoSavedOnDiskFlag_def Let_def split: option.splits)
  from markSavedOnce_cases [OF 1] markSavedOnce_cases [OF 2] show ?thesis
    by (auto simp add: sameFlagsOn_def setFlag_def unsetFlag_def)
next
  case InsertLine
  with assms show ?thesis by (simp add: updateUndoSavedOnDiskFlag_def sameFlagsOn_def)
qed (use assms in \<open>auto simp add: updateUndoSavedOnDiskFlag_def Let_def sameFlagsOn_def
      KateModifiedInsertText_updateUndoSavedOnDiskFlag_def
      KateModifiedRemoveText_updateUndoSavedOnDiskFlag_def
      KateModifiedWrapLine_updateUndoSavedOnDiskFlag_def
      KateModifiedRemoveLine_updateUndoSavedOnDiskFlag_def
      setFlag_def unsetFlag_def dest!: markSavedOnce_cases\<close>)

lemma updateRedo_replay:
  assumes upd: "updateRedoSavedOnDiskFlag u b = Some (u1, b1)"
    and len: "length b' = length b"
    and agree: "\<forall>i\<in>touchedLines u. testBit b' i = testBit b i"
    and w: "sameFlagsOn {RedoLine1Modified, RedoLine1Saved, RedoLine2Modified, RedoLine2Saved} u1 w"
  shows "\<exists>b1'. updateRedoSavedOnDiskFlag w b' = Some (w, b1') \<and> length b1' = length b1
          \<and> (\<forall>i. (oneLineKind (kind u) \<or> i \<notin> touchedLines u) \<longrightarrow> testBit b' i = testBit b i
                \<longrightarrow> testBit b1' i = testBit b1 i)"
proof -
  from updateRedo_shape [OF upd] have s1: "kind u1 = kind u" "m_line u1 = m_line u"
    by (simp_all add: sameFlagsOn_def)
  with w have kw: "kind w = kind u" and lw: "m_line w = m_line u"
    and f: "\<And>x. x \<in> {RedoLine1Modified, RedoLine1Saved, RedoLine2Modified, RedoLine2Saved} \<Longrightarrow> (x \<in> m_lineModFlags w) = (x \<in> m_lineModFlags u1)"
    by (auto simp add: sameFlagsOn_def)
  from agree have a0: "testBit b' (m_line u) = testBit b (m_line u)"
    by (simp add: touchedLines_def)
  show ?thesis
  proof (cases "kind u")
    case InsertText
    with upd have "KateModifiedInsertText_updateRedoSavedOnDiskFlag u b = Some (u1, b1)"
      by (simp add: updateRedoSavedOnDiskFlag_def)
    from oneSlot_replay [OF this [unfolded KateModifiedInsertText_updateRedoSavedOnDiskFlag_def] len a0 _ _ lw]
    obtain b1' where "KateModifiedInsertText_updateRedoSavedOnDiskFlag w b' = Some (w, b1')"
      and "length b1' = length b1"
      and "\<forall>i. testBit b' i = testBit b i \<longrightarrow> testBit b1' i = testBit b1 i"
      unfolding KateModifiedInsertText_updateRedoSavedOnDiskFlag_def using f by auto
    with kw InsertText show ?thesis by (auto simp add: updateRedoSavedOnDiskFlag_def)
  next
    case RemoveText
    with upd have "KateModifiedRemoveText_updateRedoSavedOnDiskFlag u b = Some (u1, b1)"
      by (simp add: updateRedoSavedOnDiskFlag_def)
    from oneSlot_replay [OF this [unfolded KateModifiedRemoveText_updateRedoSavedOnDiskFlag_def] len a0 _ _ lw]
    obtain b1' where "KateModifiedRemoveText_updateRedoSavedOnDiskFlag w b' = Some (w, b1')"
      and "length b1' = length b1"
      and "\<forall>i. testBit b' i = testBit b i \<longrightarrow> testBit b1' i = testBit b1 i"
      unfolding KateModifiedRemoveText_updateRedoSavedOnDiskFlag_def using f by auto
    with kw RemoveText show ?thesis by (auto simp add: updateRedoSavedOnDiskFlag_def)
  next
    case InsertLine
    with upd have "KateModifiedInsertLine_updateRedoSavedOnDiskFlag u b = Some (u1, b1)"
      by (simp add: updateRedoSavedOnDiskFlag_def)
    from oneSlot_replay [OF this [unfolded KateModifiedInsertLine_updateRedoSavedOnDiskFlag_def] len a0 _ _ lw]
    obtain b1' where "KateModifiedInsertLine_updateRedoSavedOnDiskFlag w b' = Some (w, b1')"
      and "length b1' = length b1"
      and "\<forall>i. testBit b' i = testBit b i \<longrightarrow> testBit b1' i = testBit b1 i"
      unfolding KateModifiedInsertLine_updateRedoSavedOnDiskFlag_def using f by auto
    with kw InsertLine show ?thesis by (auto simp add: updateRedoSavedOnDiskFlag_def)
  next
    case UnWrapLine
    with upd have "KateModifiedUnWrapLine_updateRedoSavedOnDiskFlag u b = Some (u1, b1)"
      by (simp add: updateRedoSavedOnDiskFlag_def)
    from oneSlotCond_replay [OF this [unfolded KateModifiedUnWrapLine_updateRedoSavedOnDiskFlag_def] len a0 _ lw]
    obtain b1' where "KateModifiedUnWrapLine_updateRedoSavedOnDiskFlag w b' = Some (w, b1')"
      and "length b1' = length b1"
      and "\<forall>i. i \<noteq> m_line u \<longrightarrow> testBit b' i = testBit b i \<longrightarrow> testBit b1' i = testBit b1 i"
      unfolding KateModifiedUnWrapLine_updateRedoSavedOnDiskFlag_def using f by auto
    with kw UnWrapLine show ?thesis
      by (auto simp add: updateRedoSavedOnDiskFlag_def touchedLines_def oneLineKind_def)
  next
    case WrapLine
    with agree have a1: "testBit b' (m_line u + 1) = testBit b (m_line u + 1)"
      by (simp add: touchedLines_def oneLineKind_def)
    from WrapLine upd have "KateModifiedWrapLine_updateRedoSavedOnDiskFlag u b = Some (u1, b1)"
      by (simp add: updateRedoSavedOnDiskFlag_def)
    from twoSlot_replay [OF this [unfolded KateModifiedWrapLine_updateRedoSavedOnDiskFlag_def] len a0 a1 _ _ lw]
    obtain b1' where "KateModifiedWrapLine_updateRedoSavedOnDiskFlag w b' = Some (w, b1')"
      and "length b1' = length b1"
      and "\<forall>i. i \<noteq> m_line u \<and> i \<noteq> m_line u + 1 \<longrightarrow> testBit b' i = testBit b i
             \<longrightarrow> testBit b1' i = testBit b1 i"
      unfolding KateModifiedWrapLine_updateRedoSavedOnDiskFlag_def using f by auto
    with kw WrapLine show ?thesis
      by (auto simp add: updateRedoSavedOnDiskFlag_def touchedLines_def oneLineKind_def)
  next
    case RemoveLine
    with upd kw len show ?thesis by (auto simp add: updateRedoSavedOnDiskFlag_def)
  qed
qed

lemma updateUndo_replay:
  assumes upd: "updateUndoSavedOnDiskFlag u b = Some (u1, b1)"
    and len: "length b' = length b"
    and agree: "\<forall>i\<in>touchedLines u. testBit b' i = testBit b i"
    and w: "sameFlagsOn {UndoLine1Modified, UndoLine1Saved, UndoLine2Modified, UndoLine2Saved} u1 w"
  shows "\<exists>b1'. updateUndoSavedOnDiskFlag w b' = Some (w, b1') \<and> length b1' = length b1
          \<and> (\<forall>i. (oneLineKind (kind u) \<or> i \<notin> touchedLines u) \<longrightarrow> testBit b' i = testBit b i
                \<longrightarrow> testBit b1' i = testBit b1 i)"
proof -
  from updateUndo_shape [OF upd] have s1: "kind u1 = kind u" "m_line u1 = m_line u"
    by (simp_all add: sameFlagsOn_def)
  with w have kw: "kind w = kind u" and lw: "m_line w = m_line u"
    and f: "\<And>x. x \<in> {UndoLine1Modified, UndoLine1Saved, UndoLine2Modified, UndoLine2Saved} \<Longrightarrow> (x \<in> m_lineModFlags w) = (x \<in> m_lineModFlags u1)"
    by (auto simp add: sameFlagsOn_def)
  from agree have a0: "testBit b' (m_line u) = testBit b (m_line u)"
    by (simp add: touchedLines_def)
  show ?thesis
  proof (cases "kind u")
    case InsertText
    with upd have "KateModifiedInsertText_updateUndoSavedOnDiskFlag u b = Some (u1, b1)"
      by (simp add: updateUndoSavedOnDiskFlag_def)
    from oneSlot_replay [OF this [unfolded KateModifiedInsertText_updateUndoSavedOnDiskFlag_def] len a0 _ _ lw]
    obtain b1' where "KateModifiedInsertText_updateUndoSavedOnDiskFlag w b' = Some (w, b1')"
      and "length b1' = length b1"
      and "\<forall>i. testBit b' i = testBit b i \<longrightarrow> testBit b1' i = testBit b1 i"
      unfolding KateModifiedInsertText_updateUndoSavedOnDiskFlag_def using f by auto
    with kw InsertText show ?thesis by (auto simp add: updateUndoSavedOnDiskFlag_def)
  next
    case RemoveText
    with upd have "KateModifiedRemoveText_updateUndoSavedOnDiskFlag u b = Some (u1, b1)"
      by (simp add: updateUndoSavedOnDiskFlag_def)
    from oneSlot_replay [OF this [unfolded KateModifiedRemoveText_updateUndoSavedOnDiskFlag_def] len a0 _ _ lw]
    obtain b1' where "KateModifiedRemoveText_updateUndoSavedOnDiskFlag w b' = Some (w, b1')"
      and "length b1' = length b1"
      and "\<forall>i. testBit b' i = testBit b i \<longrightarrow> testBit b1' i = testBit b1 i"
      unfolding KateModifiedRemoveText_updateUndoSavedOnDiskFlag_def using f by auto
    with kw RemoveText show ?thesis by (auto simp add: updateUndoSavedOnDiskFlag_def)
  next
    case RemoveLine
    with upd have "KateModifiedRemoveLine_updateUndoSavedOnDiskFlag u b = Some (u1, b1)"
      by (simp add: updateUndoSavedOnDiskFlag_def)
    from oneSlot_replay [OF this [unfolded KateModifiedRemoveLine_updateUndoSavedOnDiskFlag_def] len a0 _ _ lw]
    obtain b1' where "KateModifiedRemoveLine_updateUndoSavedOnDiskFlag w b' = Some (w, b1')"
      and "length b1' = length b1"
      and "\<forall>i. testBit b' i = testBit b i \<longrightarrow> testBit b1' i = testBit b1 i"
      unfolding KateModifiedRemoveLine_updateUndoSavedOnDiskFlag_def using f by auto
    with kw RemoveLine show ?thesis by (auto simp add: updateUndoSavedOnDiskFlag_def)
  next
    case WrapLine
    with upd have "KateModifiedWrapLine_updateUndoSavedOnDiskFlag u b = Some (u1, b1)"
      by (simp add: updateUndoSavedOnDiskFlag_def)
    from oneSlotCond_replay [OF this [unfolded KateModifiedWrapLine_updateUndoSavedOnDiskFlag_def] len a0 _ lw]
    obtain b1' where "KateModifiedWrapLine_updateUndoSavedOnDiskFlag w b' = Some (w, b1')"
      and "length b1' = length b1"
      and "\<forall>i. i \<noteq> m_line u \<longrightarrow> testBit b' i = testBit b i \<longrightarrow> testBit b1' i = testBit b1 i"
      unfolding KateModifiedWrapLine_updateUndoSavedOnDiskFlag_def using f by auto
    with kw WrapLine show ?thesis
      by (auto simp add: updateUndoSavedOnDiskFlag_def touchedLines_def oneLineKind_def)
  next
    case UnWrapLine
    with agree have a1: "testBit b' (m_line u + 1) = testBit b (m_line u + 1)"
      by (simp add: touchedLines_def oneLineKind_def)
    from UnWrapLine upd have "KateModifiedUnWrapLine_updateUndoSavedOnDiskFlag u b = Some (u1, b1)"
      by (simp add: updateUndoSavedOnDiskFlag_def)
    from twoSlot_replay [OF this [unfolded KateModifiedUnWrapLine_updateUndoSavedOnDiskFlag_def] len a0 a1 _ _ lw]
    obtain b1' where "KateModifiedUnWrapLine_updateUndoSavedOnDiskFlag w b' = Some (w, b1')"
      and "length b1' = length b1"
      and "\<forall>i. i \<noteq> m_line u \<and> i \<noteq> m_line u + 1 \<longrightarrow> testBit b' i = testBit b i
             \<longrightarrow> testBit b1' i = testBit b1 i"
      unfolding KateModifiedUnWrapLine_updateUndoSavedOnDiskFlag_def using f by auto
    with kw UnWrapLine show ?thesis
      by (auto simp add: updateUndoSavedOnDiskFlag_def touchedLines_def oneLineKind_def)
  next
    case InsertLine
    with upd kw len show ?thesis by (auto simp add: updateUndoSavedOnDiskFlag_def)
  qed
qed


lemma updateAll_Cons:
  "updateAll f (u # us) lines = Some (r, lines'') \<longleftrightarrow>
   (\<exists>u' lines' us'. f u lines = Some (u', lines') \<and> updateAll f us lines' = Some (us', lines'')
      \<and> r = u' # us')"
  by (auto split: option.splits)

lemma updateAll_shape:
  assumes step: "\<And>u b u1 b1. f u b = Some (u1, b1) \<Longrightarrow> sameFlagsOn P u u1"
    and "updateAll f us b = Some (us1, bf)"
  shows "list_all2 (sameFlagsOn P) us us1"
  using assms(2)
proof (induction us arbitrary: b us1 bf)
  case Nil
  then show ?case by simp
next
  case (Cons u us)
  from Cons.prems obtain u1 b1 vs where
    1: "f u b = Some (u1, b1)" and 2: "updateAll f us b1 = Some (vs, bf)" and 3: "us1 = u1 # vs"
    unfolding updateAll_Cons by blast
  from step [OF 1] Cons.IH [OF 2] show ?case by (simp add: 3)
qed

lemma sameFlagsOn_touched: "sameFlagsOn P u v \<Longrightarrow> touchedLines v = touchedLines u"
  by (simp add: sameFlagsOn_def touchedLines_def)

lemma wrapsIsolated_same:
  assumes "list_all2 (sameFlagsOn P) us vs" and "wrapsIsolated us"
  shows "wrapsIsolated vs"
  using assms
proof (induction rule: list_all2_induct)
  case Nil
  then show ?case by simp
next
  case (Cons u us v vs)
  have tl: "\<exists>x\<in>set us. touchedLines x = touchedLines y" if "y \<in> set vs" for y
  proof -
    from that obtain i where i: "i < length vs" "vs ! i = y" by (auto simp add: in_set_conv_nth)
    with Cons.hyps(2) have "sameFlagsOn P (us ! i) y" "i < length us"
      by (auto simp add: list_all2_conv_all_nth)
    then show ?thesis using sameFlagsOn_touched by (metis nth_mem)
  qed
  from Cons.hyps(1) have k: "kind v = kind u" and t: "touchedLines v = touchedLines u"
    by (auto simp add: sameFlagsOn_def touchedLines_def)
  from Cons.prems have iso: "\<not> oneLineKind (kind u) \<longrightarrow> (\<forall>x\<in>set us. touchedLines u \<inter> touchedLines x = {})"
    and rest: "wrapsIsolated us" by simp_all
  have "\<forall>y\<in>set vs. touchedLines v \<inter> touchedLines y = {}" if "\<not> oneLineKind (kind v)"
  proof
    fix y assume "y \<in> set vs"
    from tl [OF this] obtain x where "x \<in> set us" "touchedLines x = touchedLines y" by blast
    with iso that k t show "touchedLines v \<inter> touchedLines y = {}" by metis
  qed
  with Cons.IH [OF rest] show ?case by simp
qed

lemma updateAll_replay:
  assumes step: "\<And>u b u1 b1 b' w. f u b = Some (u1, b1) \<Longrightarrow> length b' = length b \<Longrightarrow>
            \<forall>i\<in>touchedLines u. testBit b' i = testBit b i \<Longrightarrow> sameFlagsOn P u1 w \<Longrightarrow>
            \<exists>b1'. f w b' = Some (w, b1') \<and> length b1' = length b1
              \<and> (\<forall>i. (oneLineKind (kind u) \<or> i \<notin> touchedLines u) \<longrightarrow> testBit b' i = testBit b i
                    \<longrightarrow> testBit b1' i = testBit b1 i)"
    and "wrapsIsolated us"
    and "updateAll f us b = Some (us1, bf)"
    and "length b' = length b"
    and "\<forall>v\<in>set us. \<forall>i\<in>touchedLines v. testBit b' i = testBit b i"
    and "list_all2 (sameFlagsOn P) us1 ws"
  shows "\<exists>bf'. updateAll f ws b' = Some (ws, bf')"
  using assms(2-)
proof (induction us arbitrary: b us1 bf b' ws)
  case Nil
  then show ?case by simp
next
  case (Cons u us)
  from Cons.prems(2) obtain u1 b1 vs where
    1: "f u b = Some (u1, b1)" and 2: "updateAll f us b1 = Some (vs, bf)" and 3: "us1 = u1 # vs"
    unfolding updateAll_Cons by blast
  from Cons.prems(5) 3 obtain w ws' where
    4: "ws = w # ws'" and 5: "sameFlagsOn P u1 w" and 6: "list_all2 (sameFlagsOn P) vs ws'"
    by (auto simp add: list_all2_Cons1)
  from Cons.prems(4) have au: "\<forall>i\<in>touchedLines u. testBit b' i = testBit b i" by simp
  from step [OF 1 Cons.prems(3) au 5] obtain b1' where
    7: "f w b' = Some (w, b1')" and 8: "length b1' = length b1"
    and 9: "\<And>i. oneLineKind (kind u) \<or> i \<notin> touchedLines u \<Longrightarrow> testBit b' i = testBit b i
              \<Longrightarrow> testBit b1' i = testBit b1 i"
    by blast
  from Cons.prems(1) have iso: "\<not> oneLineKind (kind u) \<Longrightarrow> \<forall>v\<in>set us. touchedLines u \<inter> touchedLines v = {}"
    and rest: "wrapsIsolated us" by simp_all
  have "\<forall>v\<in>set us. \<forall>i\<in>touchedLines v. testBit b1' i = testBit b1 i"
  proof (intro ballI)
    fix v i assume v: "v \<in> set us" and i: "i \<in> touchedLines v"
    with Cons.prems(4) have a: "testBit b' i = testBit b i" by simp
    have "oneLineKind (kind u) \<or> i \<notin> touchedLines u"
      using iso v i by blast
    then show "testBit b1' i = testBit b1 i" using a by (rule 9)
  qed
  from Cons.IH [OF rest 2 8 this 6] obtain bf' where "updateAll f ws' b1' = Some (ws', bf')" ..
  with 7 show ?case by (simp add: 4)
qed

lemma sameFlagsOn_refl: "sameFlagsOn P u u"
  by (simp add: sameFlagsOn_def)

lemma updateAll_total:
  assumes step: "\<And>u lines. 0 \<le> m_line u \<Longrightarrow>
            \<exists>u' lines'. f u lines = Some (u', lines') \<and> m_line u' = m_line u \<and> kind u' = kind u"
    and "\<forall>u\<in>set us. 0 \<le> m_line u"
  shows "\<exists>us' lines'. updateAll f us lines = Some (us', lines') \<and> (\<forall>u\<in>set us'. 0 \<le> m_line u)"
  using assms(2)
proof (induction us arbitrary: lines)
  case Nil
  then show ?case by simp
next
  case (Cons u us)
  then have "0 \<le> m_line u" and rest: "\<forall>u\<in>set us. 0 \<le> m_line u" by simp_all
  from step [OF this(1), of lines] obtain u' l1 where
    1: "f u lines = Some (u', l1)" and 2: "m_line u' = m_line u" by blast
  from Cons.IH [OF rest, of l1] obtain vs l2 where
    3: "updateAll f us l1 = Some (vs, l2)" and 4: "\<forall>u\<in>set vs. 0 \<le> m_line u" by blast
  from 1 3 have "updateAll f (u # us) lines = Some (u' # vs, l2)" by simp
  moreover from 2 4 \<open>0 \<le> m_line u\<close> have "\<forall>u\<in>set (u' # vs). 0 \<le> m_line u" by simp
  ultimately show ?case by blast
qed

text \<open>
  C4, amended: for every sequence of undo records in which no record that comes after a
  WrapLine or UnWrapLine record touches that record's line or the line after it (in
  particular for every sequence of InsertText, RemoveText, InsertLine and RemoveLine
  records), and every size of the fresh bitmaps: if the reconciliation pass returns, then
  running it again on its result returns the same records; and the pass returns whenever
  every record has a non-negative line.
\<close>

theorem reconciliation_idempotent:
  assumes iso: "wrapsIsolated us"
  shows "(\<forall>us'. reconciliationPass n us = Some us' \<longrightarrow> reconciliationPass n us' = Some us')
       \<and> ((\<forall>u\<in>set us. 0 \<le> m_line u) \<longrightarrow> (\<exists>us'. reconciliationPass n us = Some us'))"
proof (intro conjI allI impI)
  fix us'
  assume p: "reconciliationPass n us = Some us'"
  let ?B = "replicate n False"
  from p obtain us1 l1 l2 where
    1: "updateAll updateRedoSavedOnDiskFlag us ?B = Some (us1, l1)"
    and 2: "updateAll updateUndoSavedOnDiskFlag us1 ?B = Some (us', l2)"
    by (auto simp add: reconciliationPass_def split: option.splits)
  from updateAll_shape [of updateRedoSavedOnDiskFlag, OF updateRedo_shape 1]
  have iso1: "wrapsIsolated us1" using iso by (rule wrapsIsolated_same)
  from updateAll_shape [of updateUndoSavedOnDiskFlag, OF updateUndo_shape 2]
  have same: "list_all2 (sameFlagsOn {RedoLine1Modified, RedoLine1Saved, RedoLine2Modified, RedoLine2Saved}) us1 us'" .
  have "\<exists>m1. updateAll updateRedoSavedOnDiskFlag us' ?B = Some (us', m1)"
    by (rule updateAll_replay [OF updateRedo_replay iso 1 _ _ same]) simp_all
  then obtain m1 where 3: "updateAll updateRedoSavedOnDiskFlag us' ?B = Some (us', m1)" ..
  have same': "list_all2 (sameFlagsOn {UndoLine1Modified, UndoLine1Saved, UndoLine2Modified, UndoLine2Saved}) us' us'"
    by (simp add: list_all2_refl sameFlagsOn_refl)
  have "\<exists>m2. updateAll updateUndoSavedOnDiskFlag us' ?B = Some (us', m2)"
    by (rule updateAll_replay [OF updateUndo_replay iso1 2 _ _ same']) simp_all
  then obtain m2 where 4: "updateAll updateUndoSavedOnDiskFlag us' ?B = Some (us', m2)" ..
  from 3 4 show "reconciliationPass n us' = Some us'" by (simp add: reconciliationPass_def)
next
  assume nn: "\<forall>u\<in>set us. 0 \<le> m_line u"
  let ?B = "replicate n False"
  from updateAll_total [of updateRedoSavedOnDiskFlag, OF updateRedo_total nn, of ?B]
  obtain us1 l1 where 1: "updateAll updateRedoSavedOnDiskFlag us ?B = Some (us1, l1)"
    and n1: "\<forall>u\<in>set us1. 0 \<le> m_line u" by blast
  from updateAll_total [of updateUndoSavedOnDiskFlag, OF updateUndo_total n1, of ?B]
  obtain us2 l2 where "updateAll updateUndoSavedOnDiskFlag us1 ?B = Some (us2, l2)" by blast
  with 1 show "\<exists>us'. reconciliationPass n us = Some us'" by (simp add: reconciliationPass_def)
qed

lemmas pass_defs =
  reconciliationPass_def updateRedoSavedOnDiskFlag_def updateUndoSavedOnDiskFlag_def
  KateModifiedInsertText_updateRedoSavedOnDiskFlag_def
  KateModifiedInsertText_updateUndoSavedOnDiskFlag_def
  KateModifiedWrapLine_updateRedoSavedOnDiskFlag_def
  KateModifiedWrapLine_updateUndoSavedOnDiskFlag_def
  markSavedOnce_def resize_def testBit_def setBit_def setFlag_def unsetFlag_def isFlagSet_def
  Let_def

text \<open>
  An InsertText record on line 0 followed by a WrapLine record on line 0: the first pass
  saves the redo flag of the first record and the second-line redo flag of the second, and
  the second pass changes nothing.
\<close>

theorem reconciliation_idempotent_witness:
  "wrapsIsolated
     [\<lparr>kind = InsertText, m_line = 0, m_col = 3, m_string = ''x'', m_len = 1,
       m_newLine = False, m_lineModFlags = {RedoLine1Modified, UndoLine1Saved}\<rparr>,
      \<lparr>kind = WrapLine, m_line = 0, m_col = 3, m_string = [], m_len = 3,
       m_newLine = True, m_lineModFlags = {RedoLine1Modified, RedoLine2Modified, UndoLine1Saved}\<rparr>]
   \<and> reconciliationPass 0
        [\<lparr>kind = InsertText, m_line = 0, m_col = 3, m_string = ''x'', m_len = 1,
          m_newLine = False, m_lineModFlags = {RedoLine1Modified, UndoLine1Saved}\<rparr>,
         \<lparr>kind = WrapLine, m_line = 0, m_col = 3, m_string = [], m_len = 3,
          m_newLine = True, m_lineModFlags = {RedoLine1Modified, RedoLine2Modified, UndoLine1Saved}\<rparr>]
     = Some [\<lparr>kind = InsertText, m_line = 0, m_col = 3, m_string = ''x'', m_len = 1,
              m_newLine = False, m_lineModFlags = {RedoLine1Saved, UndoLine1Saved}\<rparr>,
             \<lparr>kind = WrapLine, m_line = 0, m_col = 3, m_string = [], m_len = 3,
              m_newLine = True, m_lineModFlags = {RedoLine1Modified, RedoLine2Saved, UndoLine1Saved}\<rparr>]
   \<and> reconciliationPass 0
        [\<lparr>kind = InsertText, m_line = 0, m_col = 3, m_string = ''x'', m_len = 1,
          m_newLine = False, m_lineModFlags = {RedoLine1Saved, UndoLine1Saved}\<rparr>,
         \<lparr>kind = WrapLine, m_line = 0, m_col = 3, m_string = [], m_len = 3,
          m_newLine = True, m_lineModFlags = {RedoLine1Modified, RedoLine2Saved, UndoLine1Saved}\<rparr>]
     = Some [\<lparr>kind = InsertText, m_line = 0, m_col = 3, m_string = ''x'', m_len = 1,
              m_newLine = False, m_lineModFlags = {RedoLine1Saved, UndoLine1Saved}\<rparr>,
             \<lparr>kind = WrapLine, m_line = 0, m_col = 3, m_string = [], m_len = 3,
              m_newLine = True, m_lineModFlags = {RedoLine1Modified, RedoLine2Saved, UndoLine1Saved}\<rparr>]"
proof -
  let ?a = "\<lparr>kind = InsertText, m_line = 0, m_col = 3, m_string = ''x'', m_len = 1,
             m_newLine = False, m_lineModFlags = {RedoLine1Modified, UndoLine1Saved}\<rparr>"
  let ?b = "\<lparr>kind = WrapLine, m_line = 0, m_col = 3, m_string = [], m_len = 3,
             m_newLine = True, m_lineModFlags = {RedoLine1Modified, RedoLine2Modified, UndoLine1Saved}\<rparr>"
  let ?a' = "\<lparr>kind = InsertText, m_line = 0, m_col = 3, m_string = ''x'', m_len = 1,
              m_newLine = False, m_lineModFlags = {RedoLine1Saved, UndoLine1Saved}\<rparr>"
  let ?b' = "\<lparr>kind = WrapLine, m_line = 0, m_col = 3, m_string = [], m_len = 3,
              m_newLine = True, m_lineModFlags = {RedoLine1Modified, RedoLine2Saved, UndoLine1Saved}\<rparr>"
  have k: "wrapsIsolated [?a, ?b]" by (simp add: oneLineKind_def)
  have p: "reconciliationPass 0 [?a, ?b] = Some [?a', ?b']"
    by (simp add: pass_defs insert_Diff_if insert_commute)
  from reconciliation_idempotent [OF k, of 0] p
  have "reconciliationPass 0 [?a', ?b'] = Some [?a', ?b']" by blast
  with k p show ?thesis by simp
qed

text \<open>
  C4 as stated fails with two WrapLine records on the same line: \<open>abcdef\<close> split at column
  3, then its first half \<open>abc\<close> split at column 1. The first pass saves the redo flags of
  the first record and marks lines 0 and 1, so the second record keeps its Modified flags. In
  the second pass the first record no longer has a Modified flag and marks no line, so the
  second record's redo flags are rewritten to Saved: the flags after the second pass differ
  from those after the first. The same happens when the records are visited newest first.
\<close>

theorem reconciliation_twice_counterexample:
  "KateModifiedWrapLine [\<lparr>m_text = ''abcdef'', modified = False, savedOnDisk = False\<rparr>] 0 3 3 True
     = Some \<lparr>kind = WrapLine, m_line = 0, m_col = 3, m_string = [], m_len = 3, m_newLine = True,
             m_lineModFlags = {RedoLine1Modified, RedoLine2Modified, UndoLine1Saved}\<rparr>
   \<and> KateModifiedWrapLine [\<lparr>m_text = ''abc'', modified = True, savedOnDisk = False\<rparr>,
                            \<lparr>m_text = ''def'', modified = True, savedOnDisk = False\<rparr>] 0 1 2 True
     = Some \<lparr>kind = WrapLine, m_line = 0, m_col = 1, m_string = [], m_len = 2, m_newLine = True,
             m_lineModFlags = {RedoLine1Modified, RedoLine2Modified, UndoLine1Modified}\<rparr>
   \<and> reconciliationPass 0
        [\<lparr>kind = WrapLine, m_line = 0, m_col = 3, m_string = [], m_len = 3, m_newLine = True,
          m_lineModFlags = {RedoLine1Modified, RedoLine2Modified, UndoLine1Saved}\<rparr>,
         \<lparr>kind = WrapLine, m_line = 0, m_col = 1, m_string = [], m_len = 2, m_newLine = True,
          m_lineModFlags = {RedoLine1Modified, RedoLine2Modified, UndoLine1Modified}\<rparr>]
     = Some [\<lparr>kind = WrapLine, m_line = 0, m_col = 3, m_string = [], m_len = 3, m_newLine = True,
              m_lineModFlags = {RedoLine1Saved, RedoLine2Saved, UndoLine1Saved}\<rparr>,
             \<lparr>kind = WrapLine, m_line = 0, m_col = 1, m_string = [], m_len = 2, m_newLine = True,
              m_lineModFlags = {RedoLine1Modified, RedoLine2Modified, UndoLine1Saved}\<rparr>]
   \<and> reconciliationPass 0
        [\<lparr>kind = WrapLine, m_line = 0, m_col = 3, m_string = [], m_len = 3, m_newLine = True,
          m_lineModFlags = {RedoLine1Saved, RedoLine2Saved, UndoLine1Saved}\<rparr>,
         \<lparr>kind = WrapLine, m_line = 0, m_col = 1, m_string = [], m_len = 2, m_newLine = True,
          m_lineModFlags = {RedoLine1Modified, RedoLine2Modified, UndoLine1Saved}\<rparr>]
     = Some [\<lparr>kind = WrapLine, m_line = 0, m_col = 3, m_string = [], m_len = 3, m_newLine = True,
              m_lineModFlags = {RedoLine1Saved, RedoLine2Saved, UndoLine1Saved}\<rparr>,
             \<lparr>kind = WrapLine, m_line = 0, m_col = 1, m_string = [], m_len = 2, m_newLine = True,
              m_lineModFlags = {RedoLine1Saved, RedoLine2Saved, UndoLine1Saved}\<rparr>]
   \<and> reconciliationPass 0
        [\<lparr>kind = WrapLine, m_line = 0, m_col = 1, m_string = [], m_len = 2, m_newLine = True,
          m_lineModFlags = {RedoLine1Modified, RedoLine2Modified, UndoLine1Modified}\<rparr>,
         \<lparr>kind = WrapLine, m_line = 0, m_col = 3, m_string = [], m_len = 3, m_newLine = True,
          m_lineModFlags = {RedoLine1Modified, RedoLine2Modified, UndoLine1Saved}\<rparr>]
     = Some [\<lparr>kind = WrapLine, m_line = 0, m_col = 1, m_string = [], m_len = 2, m_newLine = True,
              m_lineModFlags = {RedoLine1Saved, RedoLine2Saved, UndoLine1Saved}\<rparr>,
             \<lparr>kind = WrapLine, m_line = 0, m_col = 3, m_string = [], m_len = 3, m_newLine = True,
              m_lineModFlags = {RedoLine1Modified, RedoLine2Modified, UndoLine1Saved}\<rparr>]
   \<and> reconciliationPass 0
        [\<lparr>kind = WrapLine, m_line = 0, m_col = 1, m_string = [], m_len = 2, m_newLine = True,
          m_lineModFlags = {RedoLine1Saved, RedoLine2Saved, UndoLine1Saved}\<rparr>,
         \<lparr>kind = WrapLine, m_line = 0, m_col = 3, m_string = [], m_len = 3, m_newLine = True,
          m_lineModFlags = {RedoLine1Modified, RedoLine2Modified, UndoLine1Saved}\<rparr>]
     = Some [\<lparr>kind = WrapLine, m_line = 0, m_col = 1, m_string = [], m_len = 2, m_newLine = True,
              m_lineModFlags = {RedoLine1Saved, RedoLine2Saved, UndoLine1Saved}\<rparr>,
             \<lparr>kind = WrapLine, m_line = 0, m_col = 3, m_string = [], m_len = 3, m_newLine = True,
              m_lineModFlags = {RedoLine1Saved, RedoLine2Saved, UndoLine1Saved}\<rparr>]
   \<and> {RedoLine1Saved, RedoLine2Saved, UndoLine1Saved}
       \<noteq> {RedoLine1Modified, RedoLine2Modified, UndoLine1Saved}"
proof (intro conjI)
  show "{RedoLine1Saved, RedoLine2Saved, UndoLine1Saved}
       \<noteq> {RedoLine1Modified, RedoLine2Modified, UndoLine1Saved}"
    by auto
qed (simp_all add: pass_defs KateModifiedWrapLine_def KateEditWrapLineUndo_def
    plainKateTextLine_def validLine_def markedAsModified_def markedAsSavedOnDisk_def
    insert_Diff_if insert_commute)

end
